theory Spec2Isabelle
  imports Complex_Main "HOL-Library.Word"
begin

section \<open>Point-cloud editor: buffers, selection, commit, compaction, tile streaming\<close>

text \<open>
  A shallow embedding of the editing core of the point-cloud editor
  (\<^verbatim>\<open>render/types.ts\<close>, \<^verbatim>\<open>render/rendering.ts\<close>, \<^verbatim>\<open>render/tools.ts\<close>,
  \<^verbatim>\<open>render/tilesLoader.ts\<close>, \<^verbatim>\<open>render/cameraInit.ts\<close>).
  Mutation of the shared typed arrays and of the React refs is explicit state passing;
  a thrown exception is a value of type \<open>error\<close>.
\<close>

subsection \<open>JavaScript values\<close>

type_synonym u8 = "8 word"
type_synonym u32 = "32 word"

text \<open>
  A JavaScript number kept in a float array or a local: a finite value or \<open>NaN\<close>.
  Rounding to single precision on a \<^verbatim>\<open>Float32Array\<close> store is not modelled.
\<close>

datatype jsnum = Num real | NaN

datatype error =
    RangeError
  | TypeError
  | TileMagicError u32
  | AppendError string

text \<open>Reading a typed array outside its range gives \<^verbatim>\<open>undefined\<close>; writing there is ignored.\<close>

definition ta_get :: "'a list \<Rightarrow> int \<Rightarrow> 'a option" where
  "ta_get xs i = (if 0 \<le> i \<and> i < int (length xs) then Some (xs ! nat i) else None)"

definition ta_set :: "'a list \<Rightarrow> int \<Rightarrow> 'a \<Rightarrow> 'a list" where
  "ta_set xs i v = (if 0 \<le> i \<and> i < int (length xs) then xs[nat i := v] else xs)"

text \<open>\<^verbatim>\<open>undefined\<close> converts to \<open>NaN\<close> in arithmetic and in a float-array store.\<close>

definition of_undef :: "jsnum option \<Rightarrow> jsnum" where
  "of_undef v = (case v of None \<Rightarrow> NaN | Some n \<Rightarrow> n)"

fun js_div :: "jsnum \<Rightarrow> real \<Rightarrow> jsnum" where
  "js_div (Num a) d = Num (a / d)"
| "js_div NaN d = NaN"

fun js_max :: "jsnum \<Rightarrow> jsnum \<Rightarrow> jsnum" where
  "js_max (Num a) (Num b) = Num (max a b)"
| "js_max a b = NaN"

text \<open>A \<^verbatim>\<open>Set<number>\<close> in insertion order: a list without repetition.\<close>

definition set_add :: "'a \<Rightarrow> 'a list \<Rightarrow> 'a list" where
  "set_add x xs = (if x \<in> set xs then xs else xs @ [x])"

definition set_delete :: "'a \<Rightarrow> 'a list \<Rightarrow> 'a list" where
  "set_delete x xs = removeAll x xs"

subsection \<open>types.ts\<close>

datatype tool = delete | restore | ml

record buffers =
  positions :: "u32 list"
  colors :: "jsnum list"
  status :: "u8 list"
  selections :: "u8 list"
  intensities :: "jsnum list option"
  lodIndex :: "nat list option"

text \<open>
  \<open>positions\<close> holds the IEEE-754 bit patterns of the coordinates, three per point;
  \<open>status\<close> is 0 (alive) or 1 (deleted); \<open>selections\<close> is 0 (none), 1 (marked for
  delete) or 2 (marked for restore).
\<close>

fun TOOL_CODE :: "tool \<Rightarrow> nat option" where
  "TOOL_CODE delete = Some 1"
| "TOOL_CODE restore = Some 2"
| "TOOL_CODE ml = None"

definition MAX_INDICES_PER_OP :: nat where
  "MAX_INDICES_PER_OP = 20000"

subsection \<open>rendering.ts: applyBaseColor\<close>

text \<open>The local table \<^verbatim>\<open>map\<close> of \<^verbatim>\<open>applyBaseColor\<close>; any other key reads \<^verbatim>\<open>undefined\<close>.\<close>

definition selection_color :: "u8 \<Rightarrow> (jsnum \<times> jsnum \<times> jsnum) option" where
  "selection_color s =
     (if s = 0 then Some (Num 1, Num 1, Num 1)
      else if s = 1 then Some (Num 1, Num 0.25, Num 0.25)
      else if s = 2 then Some (Num 0.2, Num 1, Num 0.2)
      else None)"

definition set_rgb :: "buffers \<Rightarrow> int \<Rightarrow> jsnum \<times> jsnum \<times> jsnum \<Rightarrow> buffers" where
  "set_rgb b index rgb =
     (case rgb of (r, g, bl) \<Rightarrow>
        (let offset = index * 3
         in b\<lparr>colors := ta_set (ta_set (ta_set (colors b) offset r) (offset + 1) g) (offset + 2) bl\<rparr>))"

definition base_gray :: "buffers \<Rightarrow> int \<Rightarrow> jsnum" where
  "base_gray b index =
     (case intensities b of
        Some ints \<Rightarrow> js_max (js_div (of_undef (ta_get ints index)) 255) (Num 0.15)
      | None \<Rightarrow> Num 0.35)"

text \<open>
  Destructuring \<^verbatim>\<open>[r, g, b] = map[selections[index]]\<close> throws a \<^verbatim>\<open>TypeError\<close> when the
  table has no entry, before any colour is written.
\<close>

definition applyBaseColor :: "int \<Rightarrow> buffers \<Rightarrow> bool \<Rightarrow> error + buffers" where
  "applyBaseColor index b useSelectionColors =
     (let base = base_gray b index;
          rgb = (if ta_get (status b) index = Some 1
                 then (Num 0.2, Num 0.2, Num 0.2) else (base, base, base))
      in if useSelectionColors \<and> ta_get (selections b) index \<noteq> Some 0
         then (case Option.bind (ta_get (selections b) index) selection_color of
                 None \<Rightarrow> Inl TypeError
               | Some rgb' \<Rightarrow> Inr (set_rgb b index rgb'))
         else Inr (set_rgb b index rgb))"

text \<open>The colour triple of point \<open>i\<close> as the renderer reads it.\<close>

definition color_at :: "buffers \<Rightarrow> nat \<Rightarrow> jsnum \<times> jsnum \<times> jsnum" where
  "color_at b i = (colors b ! (3 * i), colors b ! (3 * i + 1), colors b ! (3 * i + 2))"

subsection \<open>tools.ts: brush selection\<close>

text \<open>The pending sets are the pair \<open>(pendingDelete, pendingRestore)\<close>.\<close>

definition updateSelection ::
  "int \<Rightarrow> nat option \<Rightarrow> buffers \<Rightarrow> int list \<times> int list \<Rightarrow> buffers \<times> int list \<times> int list" where
  "updateSelection index toolCode b pend =
     (case pend of (pendingDelete, pendingRestore) \<Rightarrow>
        (case toolCode of
           None \<Rightarrow> (b, pendingDelete, pendingRestore)
         | Some tc \<Rightarrow>
             if index < 0 \<or> index \<ge> int (length (selections b))
             then (b, pendingDelete, pendingRestore)
             else if Some tc = TOOL_CODE delete
             then (b\<lparr>selections := ta_set (selections b) index 1\<rparr>,
                   set_add index pendingDelete, set_delete index pendingRestore)
             else if Some tc = TOOL_CODE restore
             then (b\<lparr>selections := ta_set (selections b) index 2\<rparr>,
                   set_delete index pendingDelete, set_add index pendingRestore)
             else (b, pendingDelete, pendingRestore)))"

definition colorPoint :: "int \<Rightarrow> buffers \<Rightarrow> error + buffers" where
  "colorPoint index b = applyBaseColor index b True"

text \<open>
  The \<^verbatim>\<open>indices.forEach\<close> of \<^verbatim>\<open>applyBrush\<close>: an exception of \<^verbatim>\<open>colorPoint\<close> leaves the
  loop, with the updates made so far in place.
\<close>

fun brush_forEach ::
  "int list \<Rightarrow> nat option \<Rightarrow> buffers \<Rightarrow> int list \<times> int list
     \<Rightarrow> error option \<times> buffers \<times> int list \<times> int list" where
  "brush_forEach [] tc b pend = (None, b, pend)"
| "brush_forEach (i # rest) tc b pend =
     (case updateSelection i tc b pend of (b1, pend1) \<Rightarrow>
        (case colorPoint i b1 of
           Inl err \<Rightarrow> (Some err, b1, pend1)
         | Inr b2 \<Rightarrow> brush_forEach rest tc b2 pend1))"

record geometry =
  drawRange_count :: nat

record request =
  sessionId :: string
  baseVersion :: nat
  action :: string
  indices :: "int list"

text \<open>
  The editor's refs and counters. \<open>appended\<close> lists the requests handed to
  \<^verbatim>\<open>appendOps\<close> so far (each carries one operation, flattened into the request);
  \<open>console_errors\<close> lists what \<^verbatim>\<open>console.error\<close> received.
\<close>

record editor =
  buffersRef :: "buffers option"
  geometryRef :: "geometry option"
  pendingDeleteRef :: "int list"
  pendingRestoreRef :: "int list"
  deletedSetRef :: "int list"
  sessionVersionRef :: nat
  selectedForDelete :: nat
  selectedForRestore :: nat
  appended :: "request list"
  console_errors :: "error list"

text \<open>
  \<^verbatim>\<open>applyBrush\<close>: \<open>intersections\<close> gives the \<^verbatim>\<open>index\<close> field of each raycast hit
  (\<open>None\<close> when it is not a number).
\<close>

definition applyBrush :: "int option list \<Rightarrow> tool \<Rightarrow> editor \<Rightarrow> error option \<times> editor" where
  "applyBrush intersections activeTool e =
     (case buffersRef e of
        None \<Rightarrow> (None, e)
      | Some b \<Rightarrow>
          if intersections = [] then (None, e)
          else
            (let indices = fold set_add (List.map_filter (\<lambda>x. x) intersections) []
             in if indices = [] then (None, e)
                else
                  (case TOOL_CODE activeTool of
                     None \<Rightarrow> (None, e)
                   | Some toolCode \<Rightarrow>
                       (case brush_forEach indices (Some toolCode) b
                               (pendingDeleteRef e, pendingRestoreRef e) of
                          (Some err, b', pd, pr) \<Rightarrow>
                            (Some err, e\<lparr>buffersRef := Some b', pendingDeleteRef := pd,
                                          pendingRestoreRef := pr\<rparr>)
                        | (None, b', pd, pr) \<Rightarrow>
                            (None, e\<lparr>buffersRef := Some b', pendingDeleteRef := pd,
                                      pendingRestoreRef := pr,
                                      selectedForDelete := length pd,
                                      selectedForRestore := length pr\<rparr>)))))"

subsection \<open>cameraInit.ts: tryInitializeCameraPose\<close>

text \<open>\<^verbatim>\<open>count | 0\<close>: the draw range count as a signed 32-bit integer.\<close>

definition to_int32 :: "int \<Rightarrow> int" where
  "to_int32 n = sint (word_of_int n :: 32 word)"

definition maxSamples :: nat where
  "maxSamples = 120000"

definition stride :: "nat \<Rightarrow> nat" where
  "stride count = max 1 (count div maxSamples)"

text \<open>
  The loop \<^verbatim>\<open>for (let i = 0; i < count; i += stride)\<close>: the indices whose coordinates
  are pushed onto \<^verbatim>\<open>xs\<close>, \<^verbatim>\<open>ys\<close>, \<^verbatim>\<open>zs\<close>, one sample each.
\<close>

function sample_loop :: "nat \<Rightarrow> nat \<Rightarrow> nat list" where
  "sample_loop count i =
     (if i < count then i # sample_loop count (i + stride count) else [])"
  by pat_completeness auto
termination
  by (relation "measure (\<lambda>(count, i). count - i)") (auto simp: stride_def)

declare sample_loop.simps [simp del]

text \<open>
  The guards and the subsample of \<^verbatim>\<open>tryInitializeCameraPose\<close>: \<open>None\<close> where it returns
  \<^verbatim>\<open>false\<close> before sampling, otherwise the sampled point indices. \<open>refsReady\<close> says
  that buffers, geometry, camera and controls are all present. The statistics computed
  from the samples are floating-point and are not modelled.
\<close>

definition pose_sample_indices :: "bool \<Rightarrow> bool \<Rightarrow> int \<Rightarrow> nat list option" where
  "pose_sample_indices poseInitialized refsReady drawCount =
     (if poseInitialized then None
      else if \<not> refsReady then None
      else (let count = to_int32 drawCount
            in if count < 20000 then None
               else Some (sample_loop (nat count) 0)))"

text \<open>
  \<^verbatim>\<open>tryInitializeCameraPose\<close> as its caller sees it: \<open>Inr r\<close> when it returns \<open>r\<close>, \<open>Inl err\<close>
  when it throws. \<open>stages\<close> stands for everything after the test \<^verbatim>\<open>n < 3\<close> on the number
  of samples (the statistics, \<^verbatim>\<open>Math.min(...longs)\<close> and \<^verbatim>\<open>Math.max(...longs)\<close> over one
  value per sample, the camera placement): its outcome on the sampled indices, \<open>Inr True\<close>
  exactly when the pose was set and \<^verbatim>\<open>poseInitializedRef.current\<close> with it.
\<close>

definition tryInitializeCameraPose ::
  "(nat list \<Rightarrow> error + bool) \<Rightarrow> bool \<Rightarrow> bool \<Rightarrow> int \<Rightarrow> error + bool" where
  "tryInitializeCameraPose stages poseInitialized refsReady drawCount =
     (case pose_sample_indices poseInitialized refsReady drawCount of
        None \<Rightarrow> Inr False
      | Some samples \<Rightarrow> if length samples < 3 then Inr False else stages samples)"

subsection \<open>tilesLoader.ts: parseTile\<close>

record tile =
  tile_id :: string
  tile_z :: int
  tile_x :: int
  tile_y :: int
  uri :: string
  points :: nat
  base_index :: nat

definition MAGIC :: u32 where
  "MAGIC = 0x50544344"

text \<open>
  A \<^verbatim>\<open>DataView\<close> over the tile's bytes: a read that leaves the buffer throws a
  \<^verbatim>\<open>RangeError\<close>. \<^verbatim>\<open>getFloat32\<close> yields the same four bytes as \<^verbatim>\<open>getUint32\<close>, kept here
  as their bit pattern.
\<close>

definition getUint8 :: "u8 list \<Rightarrow> nat \<Rightarrow> error + u8" where
  "getUint8 view offset =
     (if offset + 1 \<le> length view then Inr (view ! offset) else Inl RangeError)"

definition getUint32 :: "u8 list \<Rightarrow> nat \<Rightarrow> error + u32" where
  "getUint32 view offset =
     (if offset + 4 \<le> length view
      then Inr (of_nat (unat (view ! offset) + 256 * unat (view ! (offset + 1))
                  + 65536 * unat (view ! (offset + 2)) + 16777216 * unat (view ! (offset + 3))))
      else Inl RangeError)"

definition getFloat32 :: "u8 list \<Rightarrow> nat \<Rightarrow> error + u32" where
  "getFloat32 view offset = getUint32 view offset"

text \<open>Sequencing of reads: the first exception ends the sequence.\<close>

definition try_read :: "error + 'a \<Rightarrow> ('a \<Rightarrow> error + 'b) \<Rightarrow> error + 'b" where
  "try_read r f = (case r of Inl e \<Rightarrow> Inl e | Inr v \<Rightarrow> f v)"

text \<open>One 16-byte point record at \<open>offset\<close>: x, y, z, r, g, b, intensity.\<close>

definition read_point ::
  "u8 list \<Rightarrow> nat \<Rightarrow> error + (u32 \<times> u32 \<times> u32 \<times> u8 \<times> u8 \<times> u8 \<times> u8)" where
  "read_point view offset =
     try_read (getFloat32 view offset) (\<lambda>x.
     try_read (getFloat32 view (offset + 4)) (\<lambda>y.
     try_read (getFloat32 view (offset + 8)) (\<lambda>z.
     try_read (getUint8 view (offset + 12)) (\<lambda>r.
     try_read (getUint8 view (offset + 13)) (\<lambda>g.
     try_read (getUint8 view (offset + 14)) (\<lambda>bl.
     try_read (getUint8 view (offset + 15)) (\<lambda>intensity.
       Inr (x, y, z, r, g, bl, intensity))))))))"

definition tile_base_color :: "bool \<Rightarrow> u8 \<Rightarrow> u8 \<Rightarrow> u8 \<Rightarrow> u8 \<Rightarrow> jsnum" where
  "tile_base_color hasIntensities r g bl intensity =
     (let rgbGray = Num (max (real (max (max (unat r) (unat g)) (unat bl)) / 255) 0.35)
      in if hasIntensities
         then (if unat intensity > 0 then Num (real (unat intensity) / 255) else rgbGray)
         else rgbGray)"

definition store_point ::
  "buffers \<Rightarrow> nat \<Rightarrow> u32 \<times> u32 \<times> u32 \<times> u8 \<times> u8 \<times> u8 \<times> u8 \<Rightarrow> buffers" where
  "store_point b globalIndex p =
     (case p of (x, y, z, r, g, bl, intensity) \<Rightarrow>
        (let posOffset = int globalIndex * 3;
             baseColor = tile_base_color (intensities b \<noteq> None) r g bl intensity
         in b\<lparr>positions :=
                 ta_set (ta_set (ta_set (positions b) posOffset x) (posOffset + 1) y) (posOffset + 2) z,
               colors :=
                 ta_set (ta_set (ta_set (colors b) posOffset baseColor) (posOffset + 1) baseColor)
                   (posOffset + 2) baseColor,
               intensities :=
                 map_option (\<lambda>ints. ta_set ints (int globalIndex) (Num (real (unat intensity))))
                   (intensities b),
               status := ta_set (status b) (int globalIndex) 0,
               selections := ta_set (selections b) (int globalIndex) 0,
               lodIndex :=
                 map_option (\<lambda>lod. ta_set lod (int globalIndex) globalIndex) (lodIndex b)\<rparr>))"

text \<open>
  The point loop of \<^verbatim>\<open>parseTile\<close> from point \<open>i\<close>, reading at \<open>offset\<close>. A failed read
  leaves the loop with the points stored so far in place. The bounding box, a three.js
  object outside the store, is not modelled.
\<close>

function parse_loop ::
  "u8 list \<Rightarrow> tile \<Rightarrow> nat \<Rightarrow> nat \<Rightarrow> nat \<Rightarrow> buffers \<Rightarrow> error option \<times> buffers" where
  "parse_loop view t count i offset b =
     (if i < count
      then (case read_point view offset of
              Inl e \<Rightarrow> (Some e, b)
            | Inr p \<Rightarrow>
                parse_loop view t count (i + 1) (offset + 16) (store_point b (base_index t + i) p))
      else (None, b))"
  by pat_completeness auto
termination
  by (relation "measure (\<lambda>(view, t, count, i, offset, b). count - i)") auto

declare parse_loop.simps [simp del]

definition parseTile :: "u8 list \<Rightarrow> tile \<Rightarrow> buffers \<Rightarrow> error option \<times> buffers" where
  "parseTile buffer t b =
     (case getUint32 buffer 0 of
        Inl e \<Rightarrow> (Some e, b)
      | Inr magic \<Rightarrow>
          if magic \<noteq> MAGIC then (Some (TileMagicError magic), b)
          else (case getUint32 buffer 6 of
                  Inl e \<Rightarrow> (Some e, b)
                | Inr count \<Rightarrow> parse_loop buffer t (unat count) 0 10 b))"

subsection \<open>tools.ts: compactBuffersAfterApply\<close>

text \<open>
  A float read that yields \<^verbatim>\<open>undefined\<close> is stored as NaN; for a position this is
  the bit pattern of the canonical NaN.
\<close>

definition pos_read :: "u32 list \<Rightarrow> int \<Rightarrow> u32" where
  "pos_read xs k = (case ta_get xs k of None \<Rightarrow> 0x7FC00000 | Some v \<Rightarrow> v)"

text \<open>The body of the copy loop: kept point \<open>i\<close> of the old store goes to slot \<open>j\<close> of the new arrays.\<close>

definition copy_point :: "buffers \<Rightarrow> nat \<Rightarrow> nat \<Rightarrow> buffers \<Rightarrow> buffers" where
  "copy_point b i j nb =
     (let offS = int i * 3; offD = int j * 3
      in nb\<lparr>positions :=
                ta_set (ta_set (ta_set (positions nb) offD (pos_read (positions b) offS))
                          (offD + 1) (pos_read (positions b) (offS + 1)))
                  (offD + 2) (pos_read (positions b) (offS + 2)),
              colors :=
                ta_set (ta_set (ta_set (colors nb) offD (of_undef (ta_get (colors b) offS)))
                          (offD + 1) (of_undef (ta_get (colors b) (offS + 1))))
                  (offD + 2) (of_undef (ta_get (colors b) (offS + 2))),
              status := ta_set (status nb) (int j) 0,
              selections := ta_set (selections nb) (int j) 0,
              intensities :=
                (case intensities b of
                   None \<Rightarrow> intensities nb
                 | Some ints \<Rightarrow>
                     map_option (\<lambda>newInt. ta_set newInt (int j) (of_undef (ta_get ints (int i))))
                       (intensities nb)),
              lodIndex :=
                (case lodIndex b of
                   None \<Rightarrow> lodIndex nb
                 | Some lod \<Rightarrow> map_option (\<lambda>newLod. ta_set newLod (int j) j) (lodIndex nb))\<rparr>)"

fun copy_loop :: "buffers \<Rightarrow> nat list \<Rightarrow> nat \<Rightarrow> buffers \<Rightarrow> buffers" where
  "copy_loop b [] j nb = nb"
| "copy_loop b (i # rest) j nb = copy_loop b rest (j + 1) (copy_point b i j nb)"

text \<open>
  \<^verbatim>\<open>compactBuffersAfterApply\<close> returns the number of points removed and replaces the
  store and the draw range. \<open>N\<close> is \<^verbatim>\<open>positions.length / 3\<close>; the position array is
  always allocated with three entries per point, so the division is exact.
\<close>

definition compactBuffersAfterApply :: "editor \<Rightarrow> nat \<times> editor" where
  "compactBuffersAfterApply e =
     (case buffersRef e of
        None \<Rightarrow> (0, e)
      | Some b \<Rightarrow>
          (case geometryRef e of
             None \<Rightarrow> (0, e)
           | Some geom \<Rightarrow>
               (let N = length (positions b) div 3;
                    keepIdx = filter (\<lambda>i. ta_get (status b) (int i) = Some 0) [0..<N];
                    newCount = length keepIdx
                in if newCount = N then (0, e)
                   else
                     (let zeroed =
                            \<lparr>positions = replicate (newCount * 3) 0,
                             colors = replicate (newCount * 3) (Num 0),
                             status = replicate newCount 0,
                             selections = replicate newCount 0,
                             intensities =
                               (if intensities b \<noteq> None then Some (replicate newCount (Num 0))
                                else None),
                             lodIndex =
                               (if lodIndex b \<noteq> None then Some (replicate newCount 0)
                                else None)\<rparr>;
                          nb = copy_loop b keepIdx 0 zeroed
                      in (N - newCount,
                          e\<lparr>buffersRef := Some nb,
                            geometryRef := Some (geom\<lparr>drawRange_count := newCount\<rparr>)\<rparr>)))))"

subsection \<open>tilesLoader.ts: the contiguous draw range of loadTilesEffect\<close>

text \<open>
  The state the effect keeps while tiles arrive: the tiles sorted by \<open>base_index\<close>,
  the map from tile id to position in that order, the loaded flags, the index of the
  first tile not yet loaded, the count last given to \<^verbatim>\<open>setDrawRange(0, count)\<close>, the
  number of points parsed so far, the editor's \<^verbatim>\<open>poseInitializedRef\<close>, and what the
  \<^verbatim>\<open>catch\<close> of \<^verbatim>\<open>runOne\<close> has logged.
\<close>

record loader =
  sortedTiles :: "tile list"
  indexById :: "string \<rightharpoonup> nat"
  loadedFlags :: "bool list"
  headIdx :: nat
  drawRange :: nat
  totalLoaded :: nat
  poseInitialized :: bool
  load_errors :: "error list"

text \<open>\<^verbatim>\<open>new Map(sortedTiles.map((t, i) => [t.id, i]))\<close>: entries are set in order, a later one replaces an earlier one with the same id.\<close>

definition index_map :: "tile list \<Rightarrow> string \<rightharpoonup> nat" where
  "index_map ts = fold (\<lambda>(t, i) m. m(tile_id t \<mapsto> i)) (zip ts [0..<length ts]) Map.empty"

text \<open>
  The state when the effect starts: the sort is stable, nothing is loaded, the editor
  has set the draw range to 0 when it allocated the store, and its pose flag is false.
\<close>

definition prepare_loader :: "tile list \<Rightarrow> loader" where
  "prepare_loader tiles =
     (let sorted = sort_key base_index tiles
      in \<lparr>sortedTiles = sorted, indexById = index_map sorted,
          loadedFlags = replicate (length sorted) False, headIdx = 0, drawRange = 0,
          totalLoaded = 0, poseInitialized = False, load_errors = []\<rparr>)"

text \<open>\<^verbatim>\<open>while (headIdx < sortedTiles.length && loadedFlags[headIdx]) headIdx += 1\<close>\<close>

function advance_head :: "tile list \<Rightarrow> bool list \<Rightarrow> nat \<Rightarrow> nat" where
  "advance_head ts flags h =
     (if h < length ts \<and> h < length flags \<and> flags ! h
      then advance_head ts flags (h + 1) else h)"
  by pat_completeness auto
termination
  by (relation "measure (\<lambda>(ts, flags, h). length ts - h)") auto

declare advance_head.simps [simp del]

definition updateDrawRangeForContiguousPrefix :: "nat \<Rightarrow> loader \<Rightarrow> loader" where
  "updateDrawRangeForContiguousPrefix points_total L =
     (let h = advance_head (sortedTiles L) (loadedFlags L) (headIdx L);
          contiguousCount =
            (if h < length (sortedTiles L) then base_index (sortedTiles L ! h) else points_total)
      in L\<lparr>headIdx := h, drawRange := contiguousCount\<rparr>)"

text \<open>The last statements of \<^verbatim>\<open>runOne\<close>: mark the tile as loaded and update the draw range.\<close>

definition mark_loaded :: "nat \<Rightarrow> tile \<Rightarrow> loader \<Rightarrow> loader" where
  "mark_loaded points_total t L =
     (case indexById L (tile_id t) of
        None \<Rightarrow> L
      | Some idx \<Rightarrow>
          updateDrawRangeForContiguousPrefix points_total
            (L\<lparr>loadedFlags := (loadedFlags L)[idx := True]\<rparr>))"

text \<open>
  \<^verbatim>\<open>runOne\<close> for one tile of an effect that is not cancelled. A completion is the tile,
  the outcome \<open>fetched\<close> of the fetch and of \<^verbatim>\<open>parseTile\<close> (\<open>Some err\<close> when either threw)
  and the \<open>stages\<close> of the camera-pose initializer as they behave at that moment. The
  whole body is one \<^verbatim>\<open>try\<close>: the tile is parsed and counted, then the initializer runs
  while the pose is not set, then the tile is marked; an exception of the initializer
  leaves the \<^verbatim>\<open>try\<close> before the marking and the \<^verbatim>\<open>catch\<close> logs it. The initializer reads
  the count of the draw range as the last marking left it.
\<close>

definition runOne ::
  "nat \<Rightarrow> bool \<Rightarrow> tile \<times> error option \<times> (nat list \<Rightarrow> error + bool) \<Rightarrow> loader \<Rightarrow> loader" where
  "runOne points_total refsReady c L =
     (case c of (t, fetched, stages) \<Rightarrow>
        (case fetched of
           Some err \<Rightarrow> L\<lparr>load_errors := load_errors L @ [err]\<rparr>
         | None \<Rightarrow>
             (let L1 = L\<lparr>totalLoaded := totalLoaded L + points t\<rparr>
              in if \<not> poseInitialized L1
                 then (case tryInitializeCameraPose stages (poseInitialized L1) refsReady
                              (int (drawRange L1)) of
                         Inl err \<Rightarrow> L1\<lparr>load_errors := load_errors L1 @ [err]\<rparr>
                       | Inr r \<Rightarrow> mark_loaded points_total t (L1\<lparr>poseInitialized := r\<rparr>))
                 else mark_loaded points_total t L1)))"

subsection \<open>tools.ts: applySelection\<close>

text \<open>
  \<^verbatim>\<open>appendOps\<close> is the caller's function; what it does with a request is given by a
  function from the request to the outcome: \<open>None\<close> when the promise resolves, \<open>Some err\<close>
  when it rejects. The requests of one commit differ in \<open>baseVersion\<close>, so every
  sequence of outcomes can be given this way.

  The chunk loop of one operation, from position \<open>i\<close>, with the local \<open>currentVersion\<close>:
  \<^verbatim>\<open>op.indices.slice(i, i + MAX_INDICES_PER_OP)\<close> is sent, and only an accepted chunk
  advances the version. A rejection leaves the loop as the exception does.
\<close>

function chunk_loop ::
  "(request \<Rightarrow> error option) \<Rightarrow> string \<Rightarrow> string \<Rightarrow> int list \<Rightarrow> nat \<Rightarrow> nat \<Rightarrow> editor
     \<Rightarrow> error option \<times> nat \<times> editor" where
  "chunk_loop appendOps sid act ixs i currentVersion e =
     (if i < length ixs
      then (let chunk = take MAX_INDICES_PER_OP (drop i ixs);
                req = \<lparr>sessionId = sid, baseVersion = currentVersion, action = act,
                       indices = chunk\<rparr>;
                e1 = e\<lparr>appended := appended e @ [req]\<rparr>
            in case appendOps req of
                 Some err \<Rightarrow> (Some err, currentVersion, e1)
               | None \<Rightarrow>
                   chunk_loop appendOps sid act ixs (i + MAX_INDICES_PER_OP) (currentVersion + 1)
                     (e1\<lparr>sessionVersionRef := currentVersion + 1\<rparr>))
      else (None, currentVersion, e))"
  by pat_completeness auto
termination
  by (relation "measure (\<lambda>(appendOps, sid, act, ixs, i, cv, e). length ixs - i)")
     (auto simp: MAX_INDICES_PER_OP_def)

declare chunk_loop.simps [simp del]

text \<open>\<^verbatim>\<open>for (const op of ops)\<close>: an operation is its action and its index list.\<close>

fun ops_loop ::
  "(request \<Rightarrow> error option) \<Rightarrow> string \<Rightarrow> (string \<times> int list) list \<Rightarrow> nat \<Rightarrow> editor
     \<Rightarrow> error option \<times> nat \<times> editor" where
  "ops_loop appendOps sid [] currentVersion e = (None, currentVersion, e)"
| "ops_loop appendOps sid (op # rest) currentVersion e =
     (case chunk_loop appendOps sid (fst op) (snd op) 0 currentVersion e of
        (Some err, cv, e') \<Rightarrow> (Some err, cv, e')
      | (None, cv, e') \<Rightarrow> ops_loop appendOps sid rest cv e')"

text \<open>The bodies of the two \<^verbatim>\<open>forEach\<close> that apply a committed selection to the store and to \<open>deletedSet\<close>.\<close>

definition delete_one :: "int \<Rightarrow> buffers \<times> int list \<Rightarrow> buffers \<times> int list" where
  "delete_one idx st =
     (case st of (b, deletedSet) \<Rightarrow>
        (set_rgb (b\<lparr>status := ta_set (status b) idx 1,
                     selections := ta_set (selections b) idx 0\<rparr>)
                 idx (Num 0.2, Num 0.2, Num 0.2),
         set_add idx deletedSet))"

definition restore_one :: "int \<Rightarrow> buffers \<times> int list \<Rightarrow> buffers \<times> int list" where
  "restore_one idx st =
     (case st of (b, deletedSet) \<Rightarrow>
        (let base = base_gray b idx
         in (set_rgb (b\<lparr>status := ta_set (status b) idx 0,
                         selections := ta_set (selections b) idx 0\<rparr>)
                     idx (base, base, base),
             set_delete idx deletedSet)))"

definition pending_ops :: "editor \<Rightarrow> (string \<times> int list) list" where
  "pending_ops e =
     (if pendingDeleteRef e \<noteq> [] then [(''delete'', pendingDeleteRef e)] else []) @
     (if pendingRestoreRef e \<noteq> [] then [(''restore'', pendingRestoreRef e)] else [])"

text \<open>The \<^verbatim>\<open>try\<close> block: submit all chunks, then apply the selection locally, clear it and compact.\<close>

definition applySelection_try ::
  "(request \<Rightarrow> error option) \<Rightarrow> string \<Rightarrow> editor \<Rightarrow> error option \<times> editor" where
  "applySelection_try appendOps sid e =
     (case ops_loop appendOps sid (pending_ops e) (sessionVersionRef e) e of
        (Some err, cv, e1) \<Rightarrow> (Some err, e1)
      | (None, cv, e1) \<Rightarrow>
          (let e2 = (case buffersRef e1 of
                       None \<Rightarrow> e1
                     | Some b \<Rightarrow>
                         (case fold restore_one (pendingRestoreRef e1)
                                 (fold delete_one (pendingDeleteRef e1) (b, deletedSetRef e1)) of
                            (b', deletedSet') \<Rightarrow>
                              e1\<lparr>buffersRef := Some b', deletedSetRef := deletedSet'\<rparr>));
               e3 = e2\<lparr>pendingDeleteRef := [], pendingRestoreRef := [],
                       selectedForDelete := 0, selectedForRestore := 0\<rparr>
           in (None, snd (compactBuffersAfterApply e3))))"

text \<open>
  \<^verbatim>\<open>applySelection\<close>: the first component is the exception that leaves the function
  (the rejection of the promise it returns). The \<^verbatim>\<open>catch\<close> block logs the error and
  returns.
\<close>

definition applySelection ::
  "string option \<Rightarrow> (request \<Rightarrow> error option) \<Rightarrow> editor \<Rightarrow> error option \<times> editor" where
  "applySelection session appendOps e =
     (case session of
        None \<Rightarrow> (None, e)
      | Some sid \<Rightarrow>
          if pendingDeleteRef e = [] \<and> pendingRestoreRef e = [] then (None, e)
          else (case applySelection_try appendOps sid e of
                  (Some err, e') \<Rightarrow> (None, e'\<lparr>console_errors := console_errors e' @ [err]\<rparr>)
                | (None, e') \<Rightarrow> (None, e')))"

subsection \<open>Predicates and views used in the statements and proofs\<close>

text \<open>
  The pending sets and the selection array agree: an index is pending for delete exactly
  when its selection is 1, pending for restore exactly when it is 2, and never both.
\<close>

definition selection_consistent :: "buffers \<Rightarrow> int list \<Rightarrow> int list \<Rightarrow> bool" where
  "selection_consistent b pd pr =
     (\<forall>i. (i \<in> set pd \<longleftrightarrow> ta_get (selections b) i = Some 1) \<and>
          (i \<in> set pr \<longleftrightarrow> ta_get (selections b) i = Some 2) \<and>
          \<not> (i \<in> set pd \<and> i \<in> set pr))"

text \<open>
  A point as the store holds it: position, colour, status and, when the store has
  intensities, intensity. \<open>points_of\<close> lists the points of a store in index order.
\<close>

definition point_at ::
  "buffers \<Rightarrow> nat \<Rightarrow> (u32 \<times> u32 \<times> u32) \<times> (jsnum \<times> jsnum \<times> jsnum) \<times> u8 \<times> jsnum option" where
  "point_at b i =
     ((positions b ! (3 * i), positions b ! (3 * i + 1), positions b ! (3 * i + 2)),
      color_at b i, status b ! i, map_option (\<lambda>ints. ints ! i) (intensities b))"

definition points_of ::
  "buffers \<Rightarrow> ((u32 \<times> u32 \<times> u32) \<times> (jsnum \<times> jsnum \<times> jsnum) \<times> u8 \<times> jsnum option) list" where
  "points_of b = map (point_at b) [0..<length (status b)]"

definition point_alive ::
  "(u32 \<times> u32 \<times> u32) \<times> (jsnum \<times> jsnum \<times> jsnum) \<times> u8 \<times> jsnum option \<Rightarrow> bool" where
  "point_alive p = (fst (snd (snd p)) = 0)"

text \<open>The store invariant: all arrays describe the same number of points.\<close>

definition well_formed :: "buffers \<Rightarrow> bool" where
  "well_formed b =
     (length (positions b) = 3 * length (status b) \<and>
      length (colors b) = 3 * length (status b) \<and>
      length (selections b) = length (status b) \<and>
      (case intensities b of None \<Rightarrow> True | Some ints \<Rightarrow> length ints = length (status b)) \<and>
      (case lodIndex b of None \<Rightarrow> True | Some lod \<Rightarrow> length lod = length (status b)))"

text \<open>The shape shared by the old store and the arrays under construction.\<close>

definition same_shape :: "buffers \<Rightarrow> buffers \<Rightarrow> bool" where
  "same_shape b nb = ((intensities nb = None) = (intensities b = None) \<and>
                      (lodIndex nb = None) = (lodIndex b = None))"

text \<open>What the loader knows once the tiles of \<open>D\<close> have completed.\<close>

definition loader_inv :: "tile list \<Rightarrow> tile set \<Rightarrow> loader \<Rightarrow> bool" where
  "loader_inv S D L =
     (sortedTiles L = S \<and> indexById L = index_map S \<and>
      length (loadedFlags L) = length S \<and>
      (\<forall>i < length S. loadedFlags L ! i = (S ! i \<in> D)) \<and>
      headIdx L \<le> length S \<and>
      (\<forall>i < headIdx L. loadedFlags L ! i))"

text \<open>After an update of the draw range: the head tile is not loaded and the range ends at it.\<close>

definition range_settled :: "nat \<Rightarrow> loader \<Rightarrow> bool" where
  "range_settled pt L =
     ((headIdx L < length (sortedTiles L) \<longrightarrow> \<not> loadedFlags L ! headIdx L) \<and>
      drawRange L = (if headIdx L < length (sortedTiles L)
                     then base_index (sortedTiles L ! headIdx L) else pt))"

text \<open>The tiles of a list of completions whose fetch and parse succeeded.\<close>

definition parsed_tiles :: "(tile \<times> error option \<times> (nat list \<Rightarrow> error + bool)) list \<Rightarrow> tile list" where
  "parsed_tiles cs = map fst (filter (\<lambda>c. fst (snd c) = None) cs)"

text \<open>
  The requests of a commit, written out for the proofs about \<^verbatim>\<open>applySelection\<close>:
  first the chunks the loop cuts from position \<open>i\<close> on.
\<close>

function chunks_at :: "int list \<Rightarrow> nat \<Rightarrow> int list list" where
  "chunks_at ixs i =
     (if i < length ixs
      then take MAX_INDICES_PER_OP (drop i ixs) # chunks_at ixs (i + MAX_INDICES_PER_OP)
      else [])"
  by pat_completeness auto
termination
  by (relation "measure (\<lambda>(ixs, i). length ixs - i)") (auto simp: MAX_INDICES_PER_OP_def)

declare chunks_at.simps [simp del]

text \<open>Requests for a list of (action, chunk) pairs, numbered with consecutive versions from \<open>v\<close>.\<close>

fun number_reqs :: "string \<Rightarrow> nat \<Rightarrow> (string \<times> int list) list \<Rightarrow> request list" where
  "number_reqs sid v [] = []"
| "number_reqs sid v (ac # rest) =
     \<lparr>sessionId = sid, baseVersion = v, action = fst ac, indices = snd ac\<rparr>
       # number_reqs sid (Suc v) rest"

text \<open>The requests of a whole commit if every chunk is accepted.\<close>

definition commit_plan :: "string \<Rightarrow> nat \<Rightarrow> (string \<times> int list) list \<Rightarrow> request list" where
  "commit_plan sid v ops =
     number_reqs sid v (concat (map (\<lambda>op. map (Pair (fst op)) (chunks_at (snd op) 0)) ops))"

text \<open>Sending a list of requests one after the other, stopping at the first rejection.\<close>

fun run_plan ::
  "(request \<Rightarrow> error option) \<Rightarrow> request list \<Rightarrow> nat \<Rightarrow> editor \<Rightarrow> error option \<times> nat \<times> editor" where
  "run_plan appendOps [] cv e = (None, cv, e)"
| "run_plan appendOps (r # rs) cv e =
     (case appendOps r of
        Some err \<Rightarrow> (Some err, cv, e\<lparr>appended := appended e @ [r]\<rparr>)
      | None \<Rightarrow>
          run_plan appendOps rs (cv + 1)
            (e\<lparr>appended := appended e @ [r], sessionVersionRef := cv + 1\<rparr>))"

text \<open>How many requests of a plan are accepted before the first rejection.\<close>

definition accepted :: "(request \<Rightarrow> error option) \<Rightarrow> request list \<Rightarrow> nat" where
  "accepted appendOps plan = length (takeWhile (\<lambda>r. appendOps r = None) plan)"

subsection \<open>Example states\<close>

text \<open>A freshly allocated store of eight points, and the editor around it.\<close>

definition fresh_buffers :: buffers where
  "fresh_buffers =
     \<lparr>positions = [0,0,0, 0,0,0, 0,0,0, 0,0,0, 0,0,0, 0,0,0, 0,0,0, 0,0,0],
      colors = [Num 0, Num 0, Num 0, Num 0, Num 0, Num 0, Num 0, Num 0,
                Num 0, Num 0, Num 0, Num 0, Num 0, Num 0, Num 0, Num 0,
                Num 0, Num 0, Num 0, Num 0, Num 0, Num 0, Num 0, Num 0],
      status = [0, 0, 0, 0, 0, 0, 0, 0],
      selections = [0, 0, 0, 0, 0, 0, 0, 0],
      intensities = None,
      lodIndex = Some [0, 0, 0, 0, 0, 0, 0, 0]\<rparr>"

definition fresh_editor :: editor where
  "fresh_editor =
     \<lparr>buffersRef = Some fresh_buffers, geometryRef = Some \<lparr>drawRange_count = 8\<rparr>,
      pendingDeleteRef = [], pendingRestoreRef = [], deletedSetRef = [],
      sessionVersionRef = 0, selectedForDelete = 0, selectedForRestore = 0,
      appended = [], console_errors = []\<rparr>"

text \<open>One point that is deleted and marked for delete.\<close>

definition deleted_marked_point :: buffers where
  "deleted_marked_point =
     \<lparr>positions = [0, 0, 0], colors = [Num 0, Num 0, Num 0], status = [1],
      selections = [1], intensities = None, lodIndex = None\<rparr>"

text \<open>
  Three points with intensities 102, 0 and 255: the first two alive and not selected, the
  third deleted and not selected.
\<close>

definition intensity_points :: buffers where
  "intensity_points =
     \<lparr>positions = [0, 0, 0, 0, 0, 0, 0, 0, 0],
      colors = [Num 0, Num 0, Num 0, Num 0, Num 0, Num 0, Num 0, Num 0, Num 0],
      status = [0, 0, 1], selections = [0, 0, 0],
      intensities = Some [Num 102, Num 0, Num 255], lodIndex = None\<rparr>"

text \<open>A tile descriptor placing one point at index 2.\<close>

definition example_tile :: tile where
  "example_tile = \<lparr>tile_id = ''t0'', tile_z = 0, tile_x = 0, tile_y = 0, uri = ''tiles/0/0/0.bin'',
                    points = 1, base_index = 2\<rparr>"

text \<open>The bytes of a one-point tile with a wrong magic, and of the same tile with the right one.\<close>

definition bad_magic_bytes :: "u8 list" where
  "bad_magic_bytes =
     [0x45, 0x43, 0x54, 0x50, 1, 0, 1, 0, 0, 0,
      0, 0, 0x80, 0x3F, 0, 0, 0, 0x40, 0, 0, 0x40, 0x40, 10, 20, 30, 0]"

definition good_magic_bytes :: "u8 list" where
  "good_magic_bytes =
     [0x44, 0x43, 0x54, 0x50, 1, 0, 1, 0, 0, 0,
      0, 0, 0x80, 0x3F, 0, 0, 0, 0x40, 0, 0, 0x40, 0x40, 10, 20, 30, 0]"

text \<open>Five points, the second and fourth deleted, and the editor around them.\<close>

definition five_points :: buffers where
  "five_points =
     \<lparr>positions = [10,11,12, 20,21,22, 30,31,32, 40,41,42, 50,51,52],
      colors = [Num 0.1, Num 0.1, Num 0.1, Num 0.2, Num 0.2, Num 0.2, Num 0.3, Num 0.3, Num 0.3,
                Num 0.2, Num 0.2, Num 0.2, Num 0.5, Num 0.5, Num 0.5],
      status = [0, 1, 0, 1, 0],
      selections = [0, 0, 0, 0, 0],
      intensities = None,
      lodIndex = Some [0, 1, 2, 3, 4]\<rparr>"

definition five_editor :: editor where
  "five_editor = fresh_editor\<lparr>buffersRef := Some five_points,
                                geometryRef := Some \<lparr>drawRange_count = 5\<rparr>\<rparr>"

text \<open>Three tiles of 1000 points each, and a fourth descriptor that repeats the id of the first.\<close>

definition tile0 :: tile where
  "tile0 = \<lparr>tile_id = ''tile0'', tile_z = 0, tile_x = 0, tile_y = 0, uri = ''t/0'',
             points = 1000, base_index = 0\<rparr>"

definition tile1 :: tile where
  "tile1 = \<lparr>tile_id = ''tile1'', tile_z = 0, tile_x = 1, tile_y = 0, uri = ''t/1'',
             points = 1000, base_index = 1000\<rparr>"

definition tile2 :: tile where
  "tile2 = \<lparr>tile_id = ''tile2'', tile_z = 0, tile_x = 2, tile_y = 0, uri = ''t/2'',
             points = 1000, base_index = 2000\<rparr>"

definition tile0_again :: tile where
  "tile0_again = \<lparr>tile_id = ''tile0'', tile_z = 0, tile_x = 1, tile_y = 0, uri = ''t/1'',
             points = 1000, base_index = 1000\<rparr>"

text \<open>
  A tile of 239999 points followed by a tile of one point. Stages of the initializer that
  set the pose unless \<^verbatim>\<open>Math.min(...longs)\<close> is handed more than \<open>limit\<close> arguments, one
  per sample, which throws a \<^verbatim>\<open>RangeError\<close>.
\<close>

definition tile_a :: tile where
  "tile_a = \<lparr>tile_id = ''a'', tile_z = 0, tile_x = 0, tile_y = 0, uri = ''t/a'',
              points = 239999, base_index = 0\<rparr>"

definition tile_b :: tile where
  "tile_b = \<lparr>tile_id = ''b'', tile_z = 0, tile_x = 1, tile_y = 0, uri = ''t/b'',
              points = 1, base_index = 239999\<rparr>"

definition spread_stages :: "nat \<Rightarrow> nat list \<Rightarrow> error + bool" where
  "spread_stages limit samples = (if limit < length samples then Inl RangeError else Inr True)"

text \<open>A server that accepts every request, one that rejects every request, and an editor with a pending selection on the store of eight points.\<close>

definition accept_all :: "request \<Rightarrow> error option" where
  "accept_all r = None"

definition reject_all :: "request \<Rightarrow> error option" where
  "reject_all r = Some (AppendError ''version conflict'')"

definition pending_editor :: editor where
  "pending_editor =
     fresh_editor\<lparr>
       buffersRef := Some (fresh_buffers\<lparr>status := [0, 0, 1, 0, 0, 0, 0, 0],
                                          selections := [0, 0, 2, 0, 0, 1, 0, 1]\<rparr>),
       pendingDeleteRef := [5, 7], pendingRestoreRef := [2],
       sessionVersionRef := 3, selectedForDelete := 2, selectedForRestore := 1\<rparr>"

text \<open>The store of \<open>pending_editor\<close> once its selection has been applied, before compaction.\<close>

definition committed_buffers :: buffers where
  "committed_buffers =
     fresh_buffers\<lparr>status := [0, 0, 0, 0, 0, 1, 0, 1],
       colors := [Num 0, Num 0, Num 0, Num 0, Num 0, Num 0, Num 0.35, Num 0.35, Num 0.35,
                  Num 0, Num 0, Num 0, Num 0, Num 0, Num 0, Num 0.2, Num 0.2, Num 0.2,
                  Num 0, Num 0, Num 0, Num 0.2, Num 0.2, Num 0.2]\<rparr>"

section \<open>Typed arrays and insertion-ordered sets\<close>

lemma ta_get_nat [simp]:
  "ta_get xs (int i) = (if i < length xs then Some (xs ! i) else None)"
  by (simp add: ta_get_def)

lemma length_ta_set [simp]: "length (ta_set xs i v) = length xs"
  by (simp add: ta_set_def)

lemma ta_set_nonneg: "0 \<le> k \<Longrightarrow> ta_set xs k v = xs[nat k := v]"
  by (simp add: ta_set_def list_update_beyond)

lemma ta_get_ta_set:
  "ta_get (ta_set xs i v) j =
     (if j = i \<and> 0 \<le> i \<and> i < int (length xs) then Some v else ta_get xs j)"
  by (auto simp: ta_get_def ta_set_def nth_list_update)

lemma set_set_add [simp]: "set (set_add x xs) = insert x (set xs)"
  by (auto simp: set_add_def)

lemma set_set_delete [simp]: "set (set_delete x xs) = set xs - {x}"
  by (auto simp: set_delete_def)

section \<open>Display colour\<close>

lemma color_at_set_rgb:
  assumes "3 * i + 2 < length (colors b)"
  shows "color_at (set_rgb b (int i) rgb) i = rgb"
proof -
  obtain r g bl where rgb: "rgb = (r, g, bl)" by (cases rgb) auto
  have "colors (set_rgb b (int i) rgb) = (colors b)[3 * i := r, 3 * i + 1 := g, 3 * i + 2 := bl]"
    by (simp add: rgb set_rgb_def ta_set_nonneg nat_add_distrib nat_mult_distrib mult.commute)
  then show ?thesis
    using assms by (simp add: color_at_def rgb)
qed

lemma selections_set_rgb [simp]: "selections (set_rgb b i rgb) = selections b"
  by (cases rgb) (simp add: set_rgb_def Let_def)

lemma applyBaseColor_selections:
  "applyBaseColor i b u = Inr b' \<Longrightarrow> selections b' = selections b"
  by (auto simp: applyBaseColor_def Let_def split: option.splits if_splits)

text \<open>
  Claim C6. For a point \<open>i\<close> of a store whose arrays have matching lengths and whose
  selection code is 0, 1 or 2, \<^verbatim>\<open>applyBaseColor\<close> (with selection colours on, as
  \<^verbatim>\<open>flushColorUpdates\<close> calls it) succeeds and the colour it writes is: the selection
  colour when the selection is not 0 (red tint for 1, green tint for 2); otherwise the
  deleted gray 0.2 when the status is 1; otherwise the gray of the intensity, which is
  0.35 on a store without intensities and \<open>max (v / 255) 0.15\<close> for the intensity \<open>v\<close> of
  the point (\<open>NaN\<close> when the intensity is \<open>NaN\<close> or the array has no entry for the point).
  So a deleted point that is marked for delete shows the delete tint, not the gray.
\<close>

theorem applyBaseColor_precedence:
  assumes "length (colors b) = 3 * length (selections b)"
      and "i < length (selections b)"
      and "length (status b) = length (selections b)"
      and "selections b ! i = 0 \<or> selections b ! i = 1 \<or> selections b ! i = 2"
  shows "\<exists>b'. applyBaseColor (int i) b True = Inr b' \<and>
           color_at b' i =
             (if selections b ! i = 1 then (Num 1, Num 0.25, Num 0.25)
              else if selections b ! i = 2 then (Num 0.2, Num 1, Num 0.2)
              else if status b ! i = 1 then (Num 0.2, Num 0.2, Num 0.2)
              else (case intensities b of
                      None \<Rightarrow> (Num 0.35, Num 0.35, Num 0.35)
                    | Some ints \<Rightarrow>
                        if i < length ints
                        then (case ints ! i of
                                Num v \<Rightarrow> (Num (max (v / 255) 0.15), Num (max (v / 255) 0.15),
                                           Num (max (v / 255) 0.15))
                              | NaN \<Rightarrow> (NaN, NaN, NaN))
                        else (NaN, NaN, NaN)))"
proof -
  have rng: "3 * i + 2 < length (colors b)" using assms by simp
  have gray: "base_gray b (int i) =
                (case intensities b of
                   None \<Rightarrow> Num 0.35
                 | Some ints \<Rightarrow>
                     if i < length ints
                     then (case ints ! i of Num v \<Rightarrow> Num (max (v / 255) 0.15) | NaN \<Rightarrow> NaN)
                     else NaN)"
    by (simp add: base_gray_def of_undef_def split: option.splits jsnum.splits)
  have res: "\<exists>b'. applyBaseColor (int i) b True = Inr b' \<and>
           color_at b' i =
             (if selections b ! i = 1 then (Num 1, Num 0.25, Num 0.25)
              else if selections b ! i = 2 then (Num 0.2, Num 1, Num 0.2)
              else if status b ! i = 1 then (Num 0.2, Num 0.2, Num 0.2)
              else (base_gray b (int i), base_gray b (int i), base_gray b (int i)))"
    using assms(2,3,4) color_at_set_rgb[OF rng]
    by (auto simp: applyBaseColor_def selection_color_def Let_def)
  show ?thesis
    using res unfolding gray by (auto split: option.splits jsnum.splits)
qed

theorem applyBaseColor_precedence_witness:
  "status deleted_marked_point ! 0 = 1 \<and> selections deleted_marked_point ! 0 = 1 \<and>
   (\<exists>b'. applyBaseColor 0 deleted_marked_point True = Inr b' \<and>
         color_at b' 0 = (Num 1, Num 0.25, Num 0.25)) \<and>
   (\<exists>b'. applyBaseColor 0 intensity_points True = Inr b' \<and>
         color_at b' 0 = (Num 0.4, Num 0.4, Num 0.4)) \<and>
   (\<exists>b'. applyBaseColor 1 intensity_points True = Inr b' \<and>
         color_at b' 1 = (Num 0.15, Num 0.15, Num 0.15)) \<and>
   (\<exists>b'. applyBaseColor 2 intensity_points True = Inr b' \<and>
         color_at b' 2 = (Num 0.2, Num 0.2, Num 0.2))"
  using applyBaseColor_precedence[of deleted_marked_point 0]
        applyBaseColor_precedence[of intensity_points 0]
        applyBaseColor_precedence[of intensity_points 1]
        applyBaseColor_precedence[of intensity_points 2]
  by (simp add: deleted_marked_point_def intensity_points_def)

section \<open>Brush selection\<close>


lemma updateSelection_in_range:
  assumes "0 \<le> i" and "i < int (length (selections b))"
  shows "updateSelection i (Some 1) b (pd, pr) =
           (b\<lparr>selections := ta_set (selections b) i 1\<rparr>, set_add i pd, set_delete i pr)"
    and "updateSelection i (Some 2) b (pd, pr) =
           (b\<lparr>selections := ta_set (selections b) i 2\<rparr>, set_delete i pd, set_add i pr)"
  using assms by (simp_all add: updateSelection_def)

lemma updateSelection_consistent:
  assumes "selection_consistent b pd pr"
      and "updateSelection i tc b (pd, pr) = (b', pd', pr')"
  shows "selection_consistent b' pd' pr'"
  using assms
  unfolding selection_consistent_def updateSelection_def
  by (auto simp: ta_get_ta_set split: option.splits if_splits)


lemma colorPoint_marked:
  assumes "ta_get (selections b) i = Some 1 \<or> ta_get (selections b) i = Some 2"
  shows "\<exists>b2. colorPoint i b = Inr b2 \<and> selections b2 = selections b"
  using assms by (auto simp: colorPoint_def applyBaseColor_def selection_color_def Let_def)

text \<open>Neither step changes the size of an array, nor any array but selections and colours.\<close>

lemma updateSelection_frame:
  assumes "updateSelection i tc b (pd, pr) = (b', pd', pr')"
  shows "positions b' = positions b \<and> colors b' = colors b \<and> status b' = status b \<and>
         length (selections b') = length (selections b) \<and>
         intensities b' = intensities b \<and> lodIndex b' = lodIndex b"
  using assms by (auto simp: updateSelection_def split: option.splits if_splits)

lemma applyBaseColor_frame:
  assumes "applyBaseColor i b u = Inr b'"
  shows "positions b' = positions b \<and> length (colors b') = length (colors b) \<and>
         status b' = status b \<and> selections b' = selections b \<and>
         intensities b' = intensities b \<and> lodIndex b' = lodIndex b"
proof -
  have "\<And>rgb. positions (set_rgb b i rgb) = positions b \<and>
              length (colors (set_rgb b i rgb)) = length (colors b) \<and>
              status (set_rgb b i rgb) = status b \<and>
              intensities (set_rgb b i rgb) = intensities b \<and>
              lodIndex (set_rgb b i rgb) = lodIndex b"
    by (simp add: set_rgb_def Let_def split: prod.splits)
  then show ?thesis
    using assms by (auto simp: applyBaseColor_def Let_def split: option.splits if_splits)
qed

lemma brush_forEach_frame:
  assumes "brush_forEach is tc b (pd, pr) = (r, b', pd', pr')"
  shows "positions b' = positions b \<and> length (colors b') = length (colors b) \<and>
         status b' = status b \<and> length (selections b') = length (selections b) \<and>
         intensities b' = intensities b \<and> lodIndex b' = lodIndex b"
  using assms
proof (induction "is" arbitrary: b pd pr)
  case Nil
  then show ?case by simp
next
  case (Cons i rest)
  obtain b1 pd1 pr1 where u: "updateSelection i tc b (pd, pr) = (b1, pd1, pr1)"
    by (metis prod_cases3)
  note f1 = updateSelection_frame[OF u]
  show ?case
  proof (cases "colorPoint i b1")
    case (Inl err)
    with Cons.prems u f1 show ?thesis by simp
  next
    case (Inr b2)
    note f2 = applyBaseColor_frame[OF Inr[unfolded colorPoint_def]]
    from Cons.prems u Inr have "brush_forEach rest tc b2 (pd1, pr1) = (r, b', pd', pr')"
      by simp
    from Cons.IH[OF this] f1 f2 show ?thesis by simp
  qed
qed

lemma brush_forEach_consistent:
  assumes "selection_consistent b pd pr"
      and "brush_forEach is tc b (pd, pr) = (r, b', pd', pr')"
  shows "selection_consistent b' pd' pr'"
  using assms
proof (induction "is" arbitrary: b pd pr)
  case Nil
  then show ?case by simp
next
  case (Cons i rest)
  obtain b1 pd1 pr1 where u: "updateSelection i tc b (pd, pr) = (b1, pd1, pr1)"
    by (metis prod_cases3)
  have c1: "selection_consistent b1 pd1 pr1"
    using updateSelection_consistent[OF Cons.prems(1) u] .
  show ?case
  proof (cases "colorPoint i b1")
    case (Inl err)
    with Cons.prems(2) u c1 show ?thesis by simp
  next
    case (Inr b2)
    have "selections b2 = selections b1"
      using Inr by (simp add: colorPoint_def applyBaseColor_selections)
    then have c2: "selection_consistent b2 pd1 pr1"
      using c1 by (simp add: selection_consistent_def)
    from Cons.prems(2) u Inr have "brush_forEach rest tc b2 (pd1, pr1) = (r, b', pd', pr')"
      by simp
    from Cons.IH[OF c2 this] show ?thesis .
  qed
qed

text \<open>A loop over indices inside the range marks every one of them and does not raise.\<close>

lemma brush_forEach_delete:
  assumes "\<forall>i \<in> set is. 0 \<le> i \<and> i < int (length (selections b))"
  shows "\<exists>b' pd' pr'. brush_forEach is (Some 1) b (pd, pr) = (None, b', pd', pr') \<and>
           set pd' = set pd \<union> set is \<and> set pr' = set pr - set is \<and>
           (\<forall>j. ta_get (selections b') j = (if j \<in> set is then Some 1 else ta_get (selections b) j))"
  using assms
proof (induction "is" arbitrary: b pd pr)
  case Nil
  then show ?case by simp
next
  case (Cons i rest)
  have i: "0 \<le> i" "i < int (length (selections b))" using Cons.prems by simp_all
  let ?b1 = "b\<lparr>selections := ta_set (selections b) i 1\<rparr>"
  have u: "updateSelection i (Some 1) b (pd, pr) = (?b1, set_add i pd, set_delete i pr)"
    using updateSelection_in_range(1)[OF i] .
  have "ta_get (selections ?b1) i = Some 1" using i by (simp add: ta_get_ta_set)
  then obtain b2 where c: "colorPoint i ?b1 = Inr b2" and s2: "selections b2 = selections ?b1"
    using colorPoint_marked[of ?b1 i] by blast
  have r: "\<forall>k \<in> set rest. 0 \<le> k \<and> k < int (length (selections b2))"
    using Cons.prems by (simp add: s2)
  obtain b' pd' pr' where
    f: "brush_forEach rest (Some 1) b2 (set_add i pd, set_delete i pr) = (None, b', pd', pr')"
    and pd: "set pd' = set (set_add i pd) \<union> set rest"
    and pr: "set pr' = set (set_delete i pr) - set rest"
    and sel: "\<forall>j. ta_get (selections b') j =
                (if j \<in> set rest then Some 1 else ta_get (selections b2) j)"
    using Cons.IH[OF r, of "set_add i pd" "set_delete i pr"] by blast
  have "brush_forEach (i # rest) (Some 1) b (pd, pr) = (None, b', pd', pr')"
    using u c f by simp
  moreover have "set pd' = set pd \<union> set (i # rest)" using pd by auto
  moreover have "set pr' = set pr - set (i # rest)" using pr by auto
  moreover have "\<forall>j. ta_get (selections b') j =
                   (if j \<in> set (i # rest) then Some 1 else ta_get (selections b) j)"
    using sel i by (auto simp: s2 ta_get_ta_set)
  ultimately show ?case by blast
qed

lemma brush_forEach_restore:
  assumes "\<forall>i \<in> set is. 0 \<le> i \<and> i < int (length (selections b))"
  shows "\<exists>b' pd' pr'. brush_forEach is (Some 2) b (pd, pr) = (None, b', pd', pr') \<and>
           set pd' = set pd - set is \<and> set pr' = set pr \<union> set is \<and>
           (\<forall>j. ta_get (selections b') j = (if j \<in> set is then Some 2 else ta_get (selections b) j))"
  using assms
proof (induction "is" arbitrary: b pd pr)
  case Nil
  then show ?case by simp
next
  case (Cons i rest)
  have i: "0 \<le> i" "i < int (length (selections b))" using Cons.prems by simp_all
  let ?b1 = "b\<lparr>selections := ta_set (selections b) i 2\<rparr>"
  have u: "updateSelection i (Some 2) b (pd, pr) = (?b1, set_delete i pd, set_add i pr)"
    using updateSelection_in_range(2)[OF i] .
  have "ta_get (selections ?b1) i = Some 2" using i by (simp add: ta_get_ta_set)
  then obtain b2 where c: "colorPoint i ?b1 = Inr b2" and s2: "selections b2 = selections ?b1"
    using colorPoint_marked[of ?b1 i] by blast
  have r: "\<forall>k \<in> set rest. 0 \<le> k \<and> k < int (length (selections b2))"
    using Cons.prems by (simp add: s2)
  obtain b' pd' pr' where
    f: "brush_forEach rest (Some 2) b2 (set_delete i pd, set_add i pr) = (None, b', pd', pr')"
    and pd: "set pd' = set (set_delete i pd) - set rest"
    and pr: "set pr' = set (set_add i pr) \<union> set rest"
    and sel: "\<forall>j. ta_get (selections b') j =
                (if j \<in> set rest then Some 2 else ta_get (selections b2) j)"
    using Cons.IH[OF r, of "set_delete i pd" "set_add i pr"] by blast
  have "brush_forEach (i # rest) (Some 2) b (pd, pr) = (None, b', pd', pr')"
    using u c f by simp
  moreover have "set pd' = set pd - set (i # rest)" using pd by auto
  moreover have "set pr' = set pr \<union> set (i # rest)" using pr by auto
  moreover have "\<forall>j. ta_get (selections b') j =
                   (if j \<in> set (i # rest) then Some 2 else ta_get (selections b) j)"
    using sel i by (auto simp: s2 ta_get_ta_set)
  ultimately show ?case by blast
qed


text \<open>The hits of a brush, as the loop receives them: the numbers among them, each once.\<close>

lemma set_fold_set_add: "set (fold set_add xs acc) = set acc \<union> set xs"
  by (induction xs arbitrary: acc) auto


lemma set_map_filter_hits: "set (List.map_filter (\<lambda>x. x) hits) = {i. Some i \<in> set hits}"
  by (induction hits) (auto split: option.splits)

lemma set_hit_indices:
  "set (fold set_add (List.map_filter (\<lambda>x. x) hits) []) = {i. Some i \<in> set hits}"
  by (simp add: set_fold_set_add set_map_filter_hits)

lemma applyBrush_run:
  assumes "buffersRef e = Some b" and "TOOL_CODE t = Some tc"
      and "fold set_add (List.map_filter (\<lambda>x. x) hits) [] \<noteq> []"
      and "brush_forEach (fold set_add (List.map_filter (\<lambda>x. x) hits) []) (Some tc) b
             (pendingDeleteRef e, pendingRestoreRef e) = (r, b', pd', pr')"
  shows "fst (applyBrush hits t e) = r \<and>
         buffersRef (snd (applyBrush hits t e)) = Some b' \<and>
         pendingDeleteRef (snd (applyBrush hits t e)) = pd' \<and>
         pendingRestoreRef (snd (applyBrush hits t e)) = pr'"
proof -
  have "hits \<noteq> []" using assms(3) by (auto simp: map_filter_def)
  then show ?thesis
    using assms by (cases r) (simp_all add: applyBrush_def Let_def)
qed

lemma applyBrush_idle:
  assumes "hits = [] \<or> fold set_add (List.map_filter (\<lambda>x. x) hits) [] = [] \<or> TOOL_CODE t = None"
  shows "applyBrush hits t e = (None, e)"
  using assms by (auto simp: applyBrush_def Let_def split: option.splits)

lemma applyBrush_delete:
  assumes "buffersRef e = Some b"
      and "\<forall>i. Some i \<in> set hits \<longrightarrow> 0 \<le> i \<and> i < int (length (selections b))"
  shows "fst (applyBrush hits delete e) = None \<and>
         set (pendingDeleteRef (snd (applyBrush hits delete e))) =
           set (pendingDeleteRef e) \<union> {i. Some i \<in> set hits} \<and>
         set (pendingRestoreRef (snd (applyBrush hits delete e))) =
           set (pendingRestoreRef e) - {i. Some i \<in> set hits} \<and>
         (\<exists>b'. buffersRef (snd (applyBrush hits delete e)) = Some b' \<and>
            (\<forall>j. ta_get (selections b') j =
               (if Some j \<in> set hits then Some 1 else ta_get (selections b) j)))"
proof -
  let ?ix = "fold set_add (List.map_filter (\<lambda>x. x) hits) []"
  have H: "set ?ix = {i. Some i \<in> set hits}" by (rule set_hit_indices)
  show ?thesis
  proof (cases "?ix = []")
    case True
    then have "{i. Some i \<in> set hits} = {}" using H by simp
    then have "\<forall>j. Some j \<notin> set hits" by blast
    then show ?thesis using True assms(1) by (simp add: applyBrush_idle)
  next
    case False
    have "\<forall>i \<in> set ?ix. 0 \<le> i \<and> i < int (length (selections b))"
      using assms(2) H by blast
    from brush_forEach_delete[OF this, of "pendingDeleteRef e" "pendingRestoreRef e"]
    obtain b' pd' pr' where
      f: "brush_forEach ?ix (Some 1) b (pendingDeleteRef e, pendingRestoreRef e) = (None, b', pd', pr')"
      and p: "set pd' = set (pendingDeleteRef e) \<union> set ?ix"
             "set pr' = set (pendingRestoreRef e) - set ?ix"
             "\<forall>j. ta_get (selections b') j = (if j \<in> set ?ix then Some 1 else ta_get (selections b) j)"
      by blast
    from applyBrush_run[OF assms(1) _ False f, of delete] p
    show ?thesis unfolding H by simp
  qed
qed

lemma applyBrush_restore:
  assumes "buffersRef e = Some b"
      and "\<forall>i. Some i \<in> set hits \<longrightarrow> 0 \<le> i \<and> i < int (length (selections b))"
  shows "fst (applyBrush hits restore e) = None \<and>
         set (pendingDeleteRef (snd (applyBrush hits restore e))) =
           set (pendingDeleteRef e) - {i. Some i \<in> set hits} \<and>
         set (pendingRestoreRef (snd (applyBrush hits restore e))) =
           set (pendingRestoreRef e) \<union> {i. Some i \<in> set hits} \<and>
         (\<exists>b'. buffersRef (snd (applyBrush hits restore e)) = Some b' \<and>
            (\<forall>j. ta_get (selections b') j =
               (if Some j \<in> set hits then Some 2 else ta_get (selections b) j)))"
proof -
  let ?ix = "fold set_add (List.map_filter (\<lambda>x. x) hits) []"
  have H: "set ?ix = {i. Some i \<in> set hits}" by (rule set_hit_indices)
  show ?thesis
  proof (cases "?ix = []")
    case True
    then have "{i. Some i \<in> set hits} = {}" using H by simp
    then have "\<forall>j. Some j \<notin> set hits" by blast
    then show ?thesis using True assms(1) by (simp add: applyBrush_idle)
  next
    case False
    have "\<forall>i \<in> set ?ix. 0 \<le> i \<and> i < int (length (selections b))"
      using assms(2) H by blast
    from brush_forEach_restore[OF this, of "pendingDeleteRef e" "pendingRestoreRef e"]
    obtain b' pd' pr' where
      f: "brush_forEach ?ix (Some 2) b (pendingDeleteRef e, pendingRestoreRef e) = (None, b', pd', pr')"
      and p: "set pd' = set (pendingDeleteRef e) - set ?ix"
             "set pr' = set (pendingRestoreRef e) \<union> set ?ix"
             "\<forall>j. ta_get (selections b') j = (if j \<in> set ?ix then Some 2 else ta_get (selections b) j)"
      by blast
    from applyBrush_run[OF assms(1) _ False f, of restore] p
    show ?thesis unfolding H by simp
  qed
qed

lemma applyBrush_sizes:
  assumes "buffersRef e = Some b"
  shows "\<exists>b'. buffersRef (snd (applyBrush hits t e)) = Some b' \<and>
           positions b' = positions b \<and> status b' = status b \<and>
           intensities b' = intensities b \<and> lodIndex b' = lodIndex b \<and>
           length (colors b') = length (colors b) \<and>
           length (selections b') = length (selections b)"
proof -
  let ?ix = "fold set_add (List.map_filter (\<lambda>x. x) hits) []"
  show ?thesis
  proof (cases "hits = [] \<or> ?ix = [] \<or> TOOL_CODE t = None")
    case True
    then have "applyBrush hits t e = (None, e)" by (rule applyBrush_idle)
    then show ?thesis using assms by simp
  next
    case False
    then obtain tc where tc: "TOOL_CODE t = Some tc" by auto
    obtain r b' pd' pr' where
      f: "brush_forEach ?ix (Some tc) b (pendingDeleteRef e, pendingRestoreRef e) = (r, b', pd', pr')"
      by (metis prod_cases4)
    from applyBrush_run[OF assms tc _ f] brush_forEach_frame[OF f] False
    show ?thesis by simp
  qed
qed

lemma applyBrush_consistent:
  assumes "buffersRef e = Some b"
      and "selection_consistent b (pendingDeleteRef e) (pendingRestoreRef e)"
  shows "\<exists>b'. buffersRef (snd (applyBrush hits t e)) = Some b' \<and>
           length (selections b') = length (selections b) \<and>
           selection_consistent b' (pendingDeleteRef (snd (applyBrush hits t e)))
             (pendingRestoreRef (snd (applyBrush hits t e)))"
proof -
  let ?ix = "fold set_add (List.map_filter (\<lambda>x. x) hits) []"
  show ?thesis
  proof (cases "hits = [] \<or> ?ix = [] \<or> TOOL_CODE t = None")
    case True
    then show ?thesis using assms by (simp add: applyBrush_idle)
  next
    case False
    then obtain tc where tc: "TOOL_CODE t = Some tc" by auto
    obtain r b' pd' pr' where
      f: "brush_forEach ?ix (Some tc) b (pendingDeleteRef e, pendingRestoreRef e) = (r, b', pd', pr')"
      by (metis prod_cases4)
    have "selection_consistent b' pd' pr'"
      using brush_forEach_consistent[OF assms(2) f] .
    moreover have "length (selections b') = length (selections b)"
      using brush_forEach_frame[OF f] by simp
    ultimately show ?thesis
      using applyBrush_run[OF assms(1) tc _ f] False by simp
  qed
qed

lemmas brush_eval =
  applyBrush_def set_add_def set_delete_def updateSelection_def
  colorPoint_def applyBaseColor_def ta_get_def ta_set_def selection_color_def set_rgb_def
  base_gray_def Let_def eval_nat_numeral

lemma fresh_consistent: "selection_consistent fresh_buffers [] []"
  by (auto simp: selection_consistent_def fresh_buffers_def ta_get_def nth_Cons split: nat.splits)

text \<open>
  Claim C4. From a state where the pending sets and the selection array agree (for every
  index, membership in \<open>pendingDelete\<close> is the same as selection 1, membership in
  \<open>pendingRestore\<close> the same as selection 2, and no index is in both), a brush update
  (\<^verbatim>\<open>applyBrush\<close>, whose loop calls \<^verbatim>\<open>updateSelection\<close> for each hit index) reaches a state
  where they agree again, also when the colouring of a hit raised. When every hit lies
  inside the range the update does not raise, and it marks exactly the hits: with the
  delete tool they join \<open>pendingDelete\<close>, leave \<open>pendingRestore\<close> and get selection 1,
  with the restore tool they join \<open>pendingRestore\<close>, leave \<open>pendingDelete\<close> and get
  selection 2, and every other index keeps its selection and its memberships. In
  particular, for every index \<open>i\<close> inside the range, brushing \<open>i\<close> for delete and then for
  restore leaves \<open>i\<close> in \<open>pendingRestore\<close>, not in \<open>pendingDelete\<close>, with selection 2.
  The allocation state satisfies the agreement, so it holds after every sequence of
  brush updates.
\<close>

theorem applyBrush_selection_consistent:
  assumes "buffersRef e = Some b"
  shows "(selection_consistent b (pendingDeleteRef e) (pendingRestoreRef e) \<longrightarrow>
            (\<exists>b'. buffersRef (snd (applyBrush hits t e)) = Some b' \<and>
               selection_consistent b' (pendingDeleteRef (snd (applyBrush hits t e)))
                 (pendingRestoreRef (snd (applyBrush hits t e))))) \<and>
         ((\<forall>i. Some i \<in> set hits \<longrightarrow> 0 \<le> i \<and> i < int (length (selections b))) \<longrightarrow>
            fst (applyBrush hits t e) = None \<and>
            (t = delete \<longrightarrow>
               set (pendingDeleteRef (snd (applyBrush hits t e))) =
                 set (pendingDeleteRef e) \<union> {i. Some i \<in> set hits} \<and>
               set (pendingRestoreRef (snd (applyBrush hits t e))) =
                 set (pendingRestoreRef e) - {i. Some i \<in> set hits} \<and>
               (\<exists>b'. buffersRef (snd (applyBrush hits t e)) = Some b' \<and>
                  (\<forall>j. ta_get (selections b') j =
                     (if Some j \<in> set hits then Some 1 else ta_get (selections b) j)))) \<and>
            (t = restore \<longrightarrow>
               set (pendingDeleteRef (snd (applyBrush hits t e))) =
                 set (pendingDeleteRef e) - {i. Some i \<in> set hits} \<and>
               set (pendingRestoreRef (snd (applyBrush hits t e))) =
                 set (pendingRestoreRef e) \<union> {i. Some i \<in> set hits} \<and>
               (\<exists>b'. buffersRef (snd (applyBrush hits t e)) = Some b' \<and>
                  (\<forall>j. ta_get (selections b') j =
                     (if Some j \<in> set hits then Some 2 else ta_get (selections b) j)))) \<and>
            (t = ml \<longrightarrow> snd (applyBrush hits t e) = e)) \<and>
         (\<forall>i. 0 \<le> i \<and> i < int (length (selections b)) \<longrightarrow>
            i \<in> set (pendingDeleteRef (snd (applyBrush [Some i] delete e))) \<and>
            i \<notin> set (pendingRestoreRef (snd (applyBrush [Some i] delete e))) \<and>
            (\<exists>b1. buffersRef (snd (applyBrush [Some i] delete e)) = Some b1 \<and>
               ta_get (selections b1) i = Some 1) \<and>
            i \<in> set (pendingRestoreRef
                   (snd (applyBrush [Some i] restore (snd (applyBrush [Some i] delete e))))) \<and>
            i \<notin> set (pendingDeleteRef
                   (snd (applyBrush [Some i] restore (snd (applyBrush [Some i] delete e))))) \<and>
            (\<exists>b2. buffersRef
                     (snd (applyBrush [Some i] restore (snd (applyBrush [Some i] delete e)))) = Some b2 \<and>
               ta_get (selections b2) i = Some 2))"
proof (intro conjI)
  show "selection_consistent b (pendingDeleteRef e) (pendingRestoreRef e) \<longrightarrow>
          (\<exists>b'. buffersRef (snd (applyBrush hits t e)) = Some b' \<and>
             selection_consistent b' (pendingDeleteRef (snd (applyBrush hits t e)))
               (pendingRestoreRef (snd (applyBrush hits t e))))"
    using applyBrush_consistent[OF assms, of hits t] by blast
next
  show "(\<forall>i. Some i \<in> set hits \<longrightarrow> 0 \<le> i \<and> i < int (length (selections b))) \<longrightarrow>
            fst (applyBrush hits t e) = None \<and>
            (t = delete \<longrightarrow>
               set (pendingDeleteRef (snd (applyBrush hits t e))) =
                 set (pendingDeleteRef e) \<union> {i. Some i \<in> set hits} \<and>
               set (pendingRestoreRef (snd (applyBrush hits t e))) =
                 set (pendingRestoreRef e) - {i. Some i \<in> set hits} \<and>
               (\<exists>b'. buffersRef (snd (applyBrush hits t e)) = Some b' \<and>
                  (\<forall>j. ta_get (selections b') j =
                     (if Some j \<in> set hits then Some 1 else ta_get (selections b) j)))) \<and>
            (t = restore \<longrightarrow>
               set (pendingDeleteRef (snd (applyBrush hits t e))) =
                 set (pendingDeleteRef e) - {i. Some i \<in> set hits} \<and>
               set (pendingRestoreRef (snd (applyBrush hits t e))) =
                 set (pendingRestoreRef e) \<union> {i. Some i \<in> set hits} \<and>
               (\<exists>b'. buffersRef (snd (applyBrush hits t e)) = Some b' \<and>
                  (\<forall>j. ta_get (selections b') j =
                     (if Some j \<in> set hits then Some 2 else ta_get (selections b) j)))) \<and>
            (t = ml \<longrightarrow> snd (applyBrush hits t e) = e)"
  proof (intro impI)
    assume r: "\<forall>i. Some i \<in> set hits \<longrightarrow> 0 \<le> i \<and> i < int (length (selections b))"
    show "fst (applyBrush hits t e) = None \<and>
            (t = delete \<longrightarrow>
               set (pendingDeleteRef (snd (applyBrush hits t e))) =
                 set (pendingDeleteRef e) \<union> {i. Some i \<in> set hits} \<and>
               set (pendingRestoreRef (snd (applyBrush hits t e))) =
                 set (pendingRestoreRef e) - {i. Some i \<in> set hits} \<and>
               (\<exists>b'. buffersRef (snd (applyBrush hits t e)) = Some b' \<and>
                  (\<forall>j. ta_get (selections b') j =
                     (if Some j \<in> set hits then Some 1 else ta_get (selections b) j)))) \<and>
            (t = restore \<longrightarrow>
               set (pendingDeleteRef (snd (applyBrush hits t e))) =
                 set (pendingDeleteRef e) - {i. Some i \<in> set hits} \<and>
               set (pendingRestoreRef (snd (applyBrush hits t e))) =
                 set (pendingRestoreRef e) \<union> {i. Some i \<in> set hits} \<and>
               (\<exists>b'. buffersRef (snd (applyBrush hits t e)) = Some b' \<and>
                  (\<forall>j. ta_get (selections b') j =
                     (if Some j \<in> set hits then Some 2 else ta_get (selections b) j)))) \<and>
            (t = ml \<longrightarrow> snd (applyBrush hits t e) = e)"
    proof (cases t)
      case delete
      show ?thesis using applyBrush_delete[OF assms r] unfolding delete by simp
    next
      case restore
      show ?thesis using applyBrush_restore[OF assms r] unfolding restore by simp
    next
      case ml
      show ?thesis unfolding ml by (simp add: applyBrush_idle)
    qed
  qed
next
  show "\<forall>i. 0 \<le> i \<and> i < int (length (selections b)) \<longrightarrow>
            i \<in> set (pendingDeleteRef (snd (applyBrush [Some i] delete e))) \<and>
            i \<notin> set (pendingRestoreRef (snd (applyBrush [Some i] delete e))) \<and>
            (\<exists>b1. buffersRef (snd (applyBrush [Some i] delete e)) = Some b1 \<and>
               ta_get (selections b1) i = Some 1) \<and>
            i \<in> set (pendingRestoreRef
                   (snd (applyBrush [Some i] restore (snd (applyBrush [Some i] delete e))))) \<and>
            i \<notin> set (pendingDeleteRef
                   (snd (applyBrush [Some i] restore (snd (applyBrush [Some i] delete e))))) \<and>
            (\<exists>b2. buffersRef
                     (snd (applyBrush [Some i] restore (snd (applyBrush [Some i] delete e)))) = Some b2 \<and>
               ta_get (selections b2) i = Some 2)"
  proof (intro allI impI)
    fix i assume i: "0 \<le> i \<and> i < int (length (selections b))"
    let ?e1 = "snd (applyBrush [Some i] delete e)"
    let ?e2 = "snd (applyBrush [Some i] restore ?e1)"
    have r: "\<forall>k. Some k \<in> set [Some i] \<longrightarrow> 0 \<le> k \<and> k < int (length (selections b))"
      using i by simp
    note d = applyBrush_delete[OF assms r]
    obtain b1 where b1: "buffersRef ?e1 = Some b1" "length (selections b1) = length (selections b)"
      using applyBrush_sizes[OF assms, of "[Some i]" delete] by blast
    have r1: "\<forall>k. Some k \<in> set [Some i] \<longrightarrow> 0 \<le> k \<and> k < int (length (selections b1))"
      using i b1(2) by simp
    note s = applyBrush_restore[OF b1(1) r1]
    show "i \<in> set (pendingDeleteRef ?e1) \<and> i \<notin> set (pendingRestoreRef ?e1) \<and>
          (\<exists>b1. buffersRef ?e1 = Some b1 \<and> ta_get (selections b1) i = Some 1) \<and>
          i \<in> set (pendingRestoreRef ?e2) \<and> i \<notin> set (pendingDeleteRef ?e2) \<and>
          (\<exists>b2. buffersRef ?e2 = Some b2 \<and> ta_get (selections b2) i = Some 2)"
      using d s by auto
  qed
qed

theorem applyBrush_selection_consistent_witness:
  "7 \<in> set (pendingRestoreRef (snd (applyBrush [Some 7] restore (snd (applyBrush [Some 7] delete fresh_editor))))) \<and>
   7 \<notin> set (pendingDeleteRef (snd (applyBrush [Some 7] restore (snd (applyBrush [Some 7] delete fresh_editor))))) \<and>
   (\<exists>b2. buffersRef (snd (applyBrush [Some 7] restore (snd (applyBrush [Some 7] delete fresh_editor)))) = Some b2 \<and>
      ta_get (selections b2) 7 = Some 2) \<and>
   pendingDeleteRef (snd (applyBrush [Some 7] delete fresh_editor)) = [7] \<and>
   pendingRestoreRef (snd (applyBrush [Some 7] delete fresh_editor)) = [] \<and>
   pendingDeleteRef (snd (applyBrush [Some 7] restore (snd (applyBrush [Some 7] delete fresh_editor)))) = [] \<and>
   pendingRestoreRef (snd (applyBrush [Some 7] restore (snd (applyBrush [Some 7] delete fresh_editor)))) = [7] \<and>
   (\<exists>b'. buffersRef (snd (applyBrush [Some 7] restore (snd (applyBrush [Some 7] delete fresh_editor)))) = Some b' \<and>
      selections b' = [0, 0, 0, 0, 0, 0, 0, 2] \<and>
      selection_consistent b' [] [7])"
proof -
  let ?e1 = "snd (applyBrush [Some 7] delete fresh_editor)"
  let ?e2 = "snd (applyBrush [Some 7] restore ?e1)"
  have f: "buffersRef fresh_editor = Some fresh_buffers"
          "selection_consistent fresh_buffers (pendingDeleteRef fresh_editor) (pendingRestoreRef fresh_editor)"
    using fresh_consistent by (simp_all add: fresh_editor_def)
  have r: "(0::int) \<le> 7 \<and> 7 < int (length (selections fresh_buffers))"
    by (simp add: fresh_buffers_def)
  note T = applyBrush_selection_consistent[OF f(1), of "[Some 7]" delete]
  have scenario: "7 \<in> set (pendingRestoreRef ?e2) \<and> 7 \<notin> set (pendingDeleteRef ?e2) \<and>
                  (\<exists>b2. buffersRef ?e2 = Some b2 \<and> ta_get (selections b2) 7 = Some 2)"
    using T[THEN conjunct2, THEN conjunct2, rule_format, OF r] by blast
  obtain b1 where b1: "buffersRef ?e1 = Some b1"
      "selection_consistent b1 (pendingDeleteRef ?e1) (pendingRestoreRef ?e1)"
    using T[THEN conjunct1] f(2) by blast
  obtain b2 where b2: "buffersRef ?e2 = Some b2"
      "selection_consistent b2 (pendingDeleteRef ?e2) (pendingRestoreRef ?e2)"
    using applyBrush_selection_consistent[OF b1(1), of "[Some 7]" restore, THEN conjunct1] b1(2)
    by blast
  have ev: "pendingDeleteRef ?e1 = [7]" "pendingRestoreRef ?e1 = []"
      "pendingDeleteRef ?e2 = []" "pendingRestoreRef ?e2 = [7]"
      "\<exists>b'. buffersRef ?e2 = Some b' \<and> selections b' = [0, 0, 0, 0, 0, 0, 0, 2]"
    by (simp_all add: brush_eval fresh_editor_def fresh_buffers_def)
  show ?thesis using scenario b2 ev by auto
qed



section \<open>Camera pose subsample\<close>

lemma stride_pos: "0 < stride c" by (simp add: stride_def)

lemma ceil_div_step:
  fixes d t :: nat
  assumes "0 < d"
  shows "(d + t) div Suc t = Suc ((d - Suc t + t) div Suc t)"
proof (cases "Suc t \<le> d")
  case True
  then obtain d' where d: "d = d' + Suc t" by (metis le_add_diff_inverse2)
  have "(d' + t + Suc t) div Suc t = (d' + t) div Suc t + 1"
    by (rule div_add_self2) simp
  moreover have "d + t = d' + t + Suc t" "d - Suc t + t = d' + t" by (simp_all add: d)
  ultimately show ?thesis by simp
next
  case False
  then have z: "d - Suc t = 0" by simp
  obtain d' where d: "d = Suc d'" using assms by (cases d) auto
  have lt: "d' < Suc t" using False d by simp
  have "(d' + Suc t) div Suc t = d' div Suc t + 1"
    by (rule div_add_self2) simp
  moreover have "d + t = d' + Suc t" by (simp add: d)
  moreover have "d' div Suc t = 0" using lt by simp
  moreover have "t div Suc t = 0" by simp
  ultimately show ?thesis using z by simp
qed

lemma length_sample_loop:
  "length (sample_loop count i) = (count - i + (stride count - 1)) div stride count"
proof (induction count i rule: sample_loop.induct)
  case (1 count i)
  obtain t where s: "stride count = Suc t"
    using stride_pos[of count] by (cases "stride count") auto
  show ?case
  proof (cases "i < count")
    case True
    have "length (sample_loop count i) = Suc ((count - (i + Suc t) + t) div Suc t)"
      using True 1 by (subst sample_loop.simps) (simp add: s)
    also have "count - (i + Suc t) = count - i - Suc t" by simp
    also have "Suc ((count - i - Suc t + t) div Suc t) = (count - i + t) div Suc t"
      using ceil_div_step[of "count - i" t] True by simp
    finally show ?thesis by (simp add: s)
  next
    case False
    then show ?thesis by (subst sample_loop.simps) (simp add: s)
  qed
qed

lemma sample_loop_nth:
  "k < length (sample_loop count i) \<Longrightarrow> sample_loop count i ! k = i + k * stride count"
proof (induction count i arbitrary: k rule: sample_loop.induct)
  case (1 count i)
  show ?case
  proof (cases "i < count")
    case True
    then have eq: "sample_loop count i = i # sample_loop count (i + stride count)"
      by (subst sample_loop.simps) simp
    show ?thesis
    proof (cases k)
      case 0
      then show ?thesis using eq by simp
    next
      case (Suc k')
      then have "k' < length (sample_loop count (i + stride count))"
        using "1.prems" eq by simp
      from "1.IH"[OF True this] show ?thesis using eq Suc by simp
    qed
  next
    case False
    then have "sample_loop count i = []" by (subst sample_loop.simps) simp
    with "1.prems" show ?thesis by simp
  qed
qed

text \<open>
  Claim C9. The subsample walks the draw range by the fixed stride
  \<open>max 1 (count div 120000)\<close> (\<open>sample_loop_nth\<close>) and so takes
  \<open>\<lceil>count / stride\<rceil>\<close> points (\<open>length_sample_loop\<close>). The division rounds down,
  so the limit named \<^verbatim>\<open>maxSamples\<close> is not kept: a draw range of 239999 points has
  stride 1 and all 239999 points are sampled.
\<close>

theorem sample_count_239999:
  "map_option length (pose_sample_indices False True 239999) = Some 239999"
  by (simp add: pose_sample_indices_def to_int32_def length_sample_loop stride_def maxSamples_def)

section \<open>Tile parsing\<close>

lemma list_update_Cons_numeral:
  "(x # xs)[numeral n := v] = x # xs[pred_numeral n := v]"
  by (simp add: numeral_eq_Suc)

lemma good_tile_magic: "getUint32 good_magic_bytes 0 = Inr MAGIC"
  by (simp add: getUint32_def good_magic_bytes_def MAGIC_def)

lemma good_tile_count: "getUint32 good_magic_bytes 6 = Inr 1"
  by (simp add: getUint32_def good_magic_bytes_def)

lemma good_tile_point: "read_point good_magic_bytes 10 = Inr (0x3F800000, 0x40000000, 0x40400000, 10, 20, 30, 0)"
  by (simp add: read_point_def try_read_def getFloat32_def getUint32_def getUint8_def
      good_magic_bytes_def)

lemma good_tile_store: "store_point fresh_buffers 2 (0x3F800000, 0x40000000, 0x40400000, 10, 20, 30, 0) =
   fresh_buffers\<lparr>
        positions := [0,0,0, 0,0,0, 0x3F800000,0x40000000,0x40400000, 0,0,0, 0,0,0, 0,0,0, 0,0,0, 0,0,0],
        colors := [Num 0, Num 0, Num 0, Num 0, Num 0, Num 0, Num 0.35, Num 0.35, Num 0.35,
                   Num 0, Num 0, Num 0, Num 0, Num 0, Num 0, Num 0, Num 0, Num 0,
                   Num 0, Num 0, Num 0, Num 0, Num 0, Num 0],
        lodIndex := Some [0, 0, 2, 0, 0, 0, 0, 0]\<rparr>"
  by (simp add: store_point_def tile_base_color_def fresh_buffers_def ta_set_def Let_def
      list_update_Cons_numeral)

lemma parseTile_good_example:
  "parseTile good_magic_bytes example_tile fresh_buffers =
     (None, fresh_buffers\<lparr>
        positions := [0,0,0, 0,0,0, 0x3F800000,0x40000000,0x40400000, 0,0,0, 0,0,0, 0,0,0, 0,0,0, 0,0,0],
        colors := [Num 0, Num 0, Num 0, Num 0, Num 0, Num 0, Num 0.35, Num 0.35, Num 0.35,
                   Num 0, Num 0, Num 0, Num 0, Num 0, Num 0, Num 0, Num 0, Num 0,
                   Num 0, Num 0, Num 0, Num 0, Num 0, Num 0],
        lodIndex := Some [0, 0, 2, 0, 0, 0, 0, 0]\<rparr>)"
proof -
  have "parse_loop good_magic_bytes example_tile 1 0 10 fresh_buffers =
        parse_loop good_magic_bytes example_tile 1 1 26
          (store_point fresh_buffers 2 (0x3F800000, 0x40000000, 0x40400000, 10, 20, 30, 0))"
    by (subst parse_loop.simps) (simp add: good_tile_point example_tile_def)
  also have "\<dots> = (None, store_point fresh_buffers 2 (0x3F800000, 0x40000000, 0x40400000, 10, 20, 30, 0))"
    by (subst parse_loop.simps) simp
  finally show ?thesis
    by (simp add: parseTile_def good_tile_magic good_tile_count good_tile_store)
qed

text \<open>
  Claim C3. When the first four bytes, read little-endian, are not the magic constant
  (or the buffer has fewer than four bytes, so that the read itself throws),
  \<^verbatim>\<open>parseTile\<close> throws and returns the store exactly as it was: positions, colours,
  status, selections, intensities and LOD indices are all unchanged.
\<close>

theorem parseTile_bad_magic:
  assumes "getUint32 buffer 0 \<noteq> Inr MAGIC"
  shows "parseTile buffer t b =
           (Some (case getUint32 buffer 0 of Inl e \<Rightarrow> e | Inr magic \<Rightarrow> TileMagicError magic), b)"
  using assms by (auto simp: parseTile_def split: sum.splits)

theorem parseTile_bad_magic_witness:
  "getUint32 bad_magic_bytes 0 = Inr 0x50544345 \<and>
   parseTile bad_magic_bytes example_tile fresh_buffers =
     (Some (TileMagicError 0x50544345), fresh_buffers)"
proof -
  have g: "getUint32 bad_magic_bytes 0 = Inr 0x50544345"
    by (simp add: getUint32_def bad_magic_bytes_def)
  then have "getUint32 bad_magic_bytes 0 \<noteq> Inr MAGIC"
    by (simp add: MAGIC_def)
  from parseTile_bad_magic[OF this, of example_tile fresh_buffers] g
  show ?thesis by simp
qed

section \<open>Compaction\<close>

text \<open>What slot \<open>j\<close> holds after kept point \<open>i\<close> was copied: the point, alive.\<close>

lemma copy_point_lists:
  assumes "3 * i + 2 < length (positions b)" "3 * i + 2 < length (colors b)"
  shows "positions (copy_point b i j nb) =
           (positions nb)[3 * j := positions b ! (3 * i), 3 * j + 1 := positions b ! (3 * i + 1),
                          3 * j + 2 := positions b ! (3 * i + 2)]"
    and "colors (copy_point b i j nb) =
           (colors nb)[3 * j := colors b ! (3 * i), 3 * j + 1 := colors b ! (3 * i + 1),
                       3 * j + 2 := colors b ! (3 * i + 2)]"
    and "status (copy_point b i j nb) = (status nb)[j := 0]"
    and "selections (copy_point b i j nb) = (selections nb)[j := 0]"
proof -
  have r: "pos_read (positions b) (int i * 3) = positions b ! (3 * i)"
          "pos_read (positions b) (int i * 3 + 1) = positions b ! (3 * i + 1)"
          "pos_read (positions b) (int i * 3 + 2) = positions b ! (3 * i + 2)"
    using assms(1)
    by (simp_all add: pos_read_def ta_get_def nat_add_distrib nat_mult_distrib mult.commute)
  have c: "of_undef (ta_get (colors b) (int i * 3)) = colors b ! (3 * i)"
          "of_undef (ta_get (colors b) (int i * 3 + 1)) = colors b ! (3 * i + 1)"
          "of_undef (ta_get (colors b) (int i * 3 + 2)) = colors b ! (3 * i + 2)"
    using assms(2)
    by (simp_all add: of_undef_def ta_get_def nat_add_distrib nat_mult_distrib mult.commute)
  show "positions (copy_point b i j nb) =
           (positions nb)[3 * j := positions b ! (3 * i), 3 * j + 1 := positions b ! (3 * i + 1),
                          3 * j + 2 := positions b ! (3 * i + 2)]"
    unfolding copy_point_def Let_def r c
    by (simp add: ta_set_nonneg nat_add_distrib nat_mult_distrib mult.commute)
  show "colors (copy_point b i j nb) =
           (colors nb)[3 * j := colors b ! (3 * i), 3 * j + 1 := colors b ! (3 * i + 1),
                       3 * j + 2 := colors b ! (3 * i + 2)]"
    unfolding copy_point_def Let_def r c
    by (simp add: ta_set_nonneg nat_add_distrib nat_mult_distrib mult.commute)
  show "status (copy_point b i j nb) = (status nb)[j := 0]"
    by (simp add: copy_point_def Let_def ta_set_nonneg)
  show "selections (copy_point b i j nb) = (selections nb)[j := 0]"
    by (simp add: copy_point_def Let_def ta_set_nonneg)
qed

lemma copy_point_intensities:
  "intensities (copy_point b i j nb) =
     (case intensities b of None \<Rightarrow> intensities nb
      | Some ints \<Rightarrow> map_option (\<lambda>ni. ni[j := of_undef (ta_get ints (int i))]) (intensities nb))"
  by (simp add: copy_point_def Let_def ta_set_nonneg split: option.splits)

lemma copy_point_lodIndex:
  "lodIndex (copy_point b i j nb) =
     (case lodIndex b of None \<Rightarrow> lodIndex nb
      | Some lod \<Rightarrow> map_option (\<lambda>nl. nl[j := j]) (lodIndex nb))"
  by (simp add: copy_point_def Let_def ta_set_nonneg split: option.splits)

lemma copy_point_well_formed:
  assumes "well_formed nb" "same_shape b nb"
  shows "well_formed (copy_point b i j nb) \<and> same_shape b (copy_point b i j nb) \<and>
         length (status (copy_point b i j nb)) = length (status nb)"
  using assms
  by (auto simp: well_formed_def same_shape_def copy_point_def Let_def split: option.splits)

lemma point_at_copy_point:
  assumes wb: "well_formed b" and wn: "well_formed nb" and sh: "same_shape b nb"
      and i: "i < length (status b)" and j: "j < length (status nb)"
  shows "point_at (copy_point b i j nb) m =
           (if m = j then (fst (point_at b i), fst (snd (point_at b i)), 0, snd (snd (snd (point_at b i))))
            else point_at nb m)"
proof -
  have r: "3 * i + 2 < length (positions b)" "3 * i + 2 < length (colors b)"
    using wb i by (simp_all add: well_formed_def)
  have ln: "length (positions nb) = 3 * length (status nb)" "length (colors nb) = 3 * length (status nb)"
    using wn by (simp_all add: well_formed_def)
  note L = copy_point_lists[OF r, of j nb]
  have int_b: "\<And>ints. intensities b = Some ints \<Longrightarrow> of_undef (ta_get ints (int i)) = ints ! i"
    using wb i by (simp add: well_formed_def of_undef_def)
  have int_n: "\<And>ni. intensities nb = Some ni \<Longrightarrow> j < length ni"
    using wn j by (simp add: well_formed_def)
  show ?thesis
  proof (cases "m = j")
    case True
    have "3 * j + 2 < length (positions nb)" "3 * j + 2 < length (colors nb)"
      using ln j by simp_all
    then show ?thesis
      using True j sh int_b int_n
      by (auto simp: point_at_def color_at_def L copy_point_intensities same_shape_def
               split: option.splits)
  next
    case False
    have ne: "3 * m \<noteq> 3 * j" "3 * m \<noteq> 3 * j + 1" "3 * m \<noteq> 3 * j + 2"
             "3 * m + 1 \<noteq> 3 * j" "3 * m + 1 \<noteq> 3 * j + 1" "3 * m + 1 \<noteq> 3 * j + 2"
             "3 * m + 2 \<noteq> 3 * j" "3 * m + 2 \<noteq> 3 * j + 1" "3 * m + 2 \<noteq> 3 * j + 2"
      using False by presburger+
    have ne': "Suc (3 * m) \<noteq> 3 * j" "Suc (3 * m) \<noteq> Suc (3 * j)" "Suc (3 * m) \<noteq> Suc (Suc (3 * j))"
              "Suc (Suc (3 * m)) \<noteq> 3 * j" "Suc (Suc (3 * m)) \<noteq> Suc (3 * j)"
              "3 * m \<noteq> Suc (3 * j)" "3 * m \<noteq> Suc (Suc (3 * j))"
      using False by presburger+
    show ?thesis
      using False ne ne'
      by (cases "intensities nb")
         (auto simp: point_at_def color_at_def L copy_point_intensities split: option.splits)
  qed
qed

lemma copy_loop_points:
  assumes "well_formed b" "well_formed nb" "same_shape b nb"
      and "\<forall>i \<in> set ks. i < length (status b)"
      and "j + length ks \<le> length (status nb)"
  shows "well_formed (copy_loop b ks j nb) \<and>
         length (status (copy_loop b ks j nb)) = length (status nb) \<and>
         (\<forall>m < j. point_at (copy_loop b ks j nb) m = point_at nb m) \<and>
         (\<forall>k < length ks. point_at (copy_loop b ks j nb) (j + k) =
            (fst (point_at b (ks ! k)), fst (snd (point_at b (ks ! k))), 0,
             snd (snd (snd (point_at b (ks ! k))))))"
  using assms
proof (induction ks arbitrary: j nb)
  case Nil
  then show ?case by simp
next
  case (Cons i rest)
  let ?nb1 = "copy_point b i j nb"
  let ?R = "copy_loop b rest (j + 1) ?nb1"
  have i: "i < length (status b)" and jn: "j < length (status nb)"
    using Cons.prems by simp_all
  have w1: "well_formed ?nb1" "same_shape b ?nb1" "length (status ?nb1) = length (status nb)"
    using copy_point_well_formed[OF Cons.prems(2,3)] by simp_all
  have P: "\<And>m. point_at ?nb1 m =
           (if m = j then (fst (point_at b i), fst (snd (point_at b i)), 0, snd (snd (snd (point_at b i))))
            else point_at nb m)"
    using point_at_copy_point[OF Cons.prems(1,2,3) i jn] .
  have IH: "well_formed ?R \<and> length (status ?R) = length (status ?nb1) \<and>
         (\<forall>m < j + 1. point_at ?R m = point_at ?nb1 m) \<and>
         (\<forall>k < length rest. point_at ?R (j + 1 + k) =
            (fst (point_at b (rest ! k)), fst (snd (point_at b (rest ! k))), 0,
             snd (snd (snd (point_at b (rest ! k))))))"
  proof -
    have p4: "\<forall>i \<in> set rest. i < length (status b)" using Cons.prems(4) by simp
    have p5: "(j + 1) + length rest \<le> length (status ?nb1)" using Cons.prems(5) w1(3) by simp
    show ?thesis using Cons.IH[OF Cons.prems(1) w1(1) w1(2) p4 p5] .
  qed
  have a: "\<forall>m < j. point_at ?R m = point_at nb m"
    using IH P by simp
  have b: "\<forall>k < length (i # rest). point_at ?R (j + k) =
            (fst (point_at b ((i # rest) ! k)), fst (snd (point_at b ((i # rest) ! k))), 0,
             snd (snd (snd (point_at b ((i # rest) ! k)))))"
  proof (intro allI impI)
    fix k assume k: "k < length (i # rest)"
    show "point_at ?R (j + k) =
            (fst (point_at b ((i # rest) ! k)), fst (snd (point_at b ((i # rest) ! k))), 0,
             snd (snd (snd (point_at b ((i # rest) ! k)))))"
    proof (cases k)
      case 0
      then show ?thesis using IH P by simp
    next
      case (Suc k')
      then have "k' < length rest" using k by simp
      then have "point_at ?R (j + 1 + k') =
            (fst (point_at b (rest ! k')), fst (snd (point_at b (rest ! k'))), 0,
             snd (snd (snd (point_at b (rest ! k')))))"
        using IH by blast
      then show ?thesis using Suc by simp
    qed
  qed
  show ?case using IH w1(3) a b by simp
qed

lemma filter_full_length:
  assumes "length (filter P xs) = length xs"
  shows "filter P xs = xs"
proof -
  have "\<forall>x \<in> set xs. P x"
  proof (rule ccontr)
    assume "\<not> (\<forall>x \<in> set xs. P x)"
    then obtain x where "x \<in> set xs" "\<not> P x" by blast
    then have "length (filter P xs) < length xs" by (rule length_filter_less)
    with assms show False by simp
  qed
  then show ?thesis by simp
qed

lemma length_filter_by_index:
  "length (filter P xs) = length (filter (\<lambda>i. P (xs ! i)) [0..<length xs])"
proof -
  have "filter P (map ((!) xs) [0..<length xs]) =
        map ((!) xs) (filter (P \<circ> (!) xs) [0..<length xs])"
    by (rule filter_map)
  then have "length (filter P xs) = length (filter (P \<circ> (!) xs) [0..<length xs])"
    by (simp add: map_nth)
  then show ?thesis by (simp add: o_def)
qed

lemma map_through_nth: "map (\<lambda>k. f (xs ! k)) [0..<length xs] = map f xs"
proof -
  have "map (\<lambda>k. f (xs ! k)) [0..<length xs] = map (f \<circ> (!) xs) [0..<length xs]"
    by (simp add: o_def)
  also have "\<dots> = map f (map ((!) xs) [0..<length xs])" by (simp only: map_map)
  also have "\<dots> = map f xs" by (simp only: map_nth)
  finally show ?thesis .
qed

lemma keepIdx_alive:
  "filter (\<lambda>i. ta_get st (int i) = Some 0) [0..<length st] =
   filter (\<lambda>i. st ! i = 0) [0..<length st]"
  by (rule filter_cong) auto

lemma alive_points:
  "filter point_alive (points_of b) =
   map (point_at b) (filter (\<lambda>i. status b ! i = 0) [0..<length (status b)])"
  by (simp add: points_of_def filter_map o_def point_alive_def point_at_def)

lemma compact_unfold:
  assumes "buffersRef e = Some b" and "geometryRef e = Some g"
      and "length (positions b) div 3 = length (status b)"
  shows "compactBuffersAfterApply e =
     (let N = length (status b);
          keepIdx = filter (\<lambda>i. status b ! i = 0) [0..<length (status b)];
          newCount = length keepIdx
      in if newCount = N then (0, e)
         else
           (let zeroed =
                  \<lparr>positions = replicate (newCount * 3) 0,
                   colors = replicate (newCount * 3) (Num 0),
                   status = replicate newCount 0,
                   selections = replicate newCount 0,
                   intensities =
                     (if intensities b \<noteq> None then Some (replicate newCount (Num 0))
                      else None),
                   lodIndex =
                     (if lodIndex b \<noteq> None then Some (replicate newCount 0)
                      else None)\<rparr>;
                nb = copy_loop b keepIdx 0 zeroed
            in (N - newCount,
                e\<lparr>buffersRef := Some nb,
                  geometryRef := Some (g\<lparr>drawRange_count := newCount\<rparr>)\<rparr>)))"
  by (simp only: compactBuffersAfterApply_def assms option.case Let_def keepIdx_alive)

lemma five_keep:
  "filter (\<lambda>i. status five_points ! i = 0) [0..<length (status five_points)] = [0, 2, 4]"
  by (simp add: five_points_def)

lemma compact_five:
  "compactBuffersAfterApply five_editor =
     (2, five_editor\<lparr>buffersRef := Some
           \<lparr>positions = [10,11,12, 30,31,32, 50,51,52],
            colors = [Num 0.1, Num 0.1, Num 0.1, Num 0.3, Num 0.3, Num 0.3, Num 0.5, Num 0.5, Num 0.5],
            status = [0, 0, 0], selections = [0, 0, 0], intensities = None,
            lodIndex = Some [0, 1, 2]\<rparr>,
          geometryRef := Some \<lparr>drawRange_count = 3\<rparr>\<rparr>)"
proof -
  have a: "buffersRef five_editor = Some five_points"
    and g: "geometryRef five_editor = Some \<lparr>drawRange_count = 5\<rparr>"
    by (simp_all add: five_editor_def)
  have n: "length (positions five_points) div 3 = length (status five_points)"
    by (simp add: five_points_def)
  have i: "intensities five_points = None" "lodIndex five_points \<noteq> None"
          "length (status five_points) = 5"
    by (simp_all add: five_points_def)
  show ?thesis
    unfolding compact_unfold[OF a g n] five_keep Let_def
    by (simp add: i five_points_def copy_point_def pos_read_def of_undef_def ta_get_def
        ta_set_def Let_def list_update_Cons_numeral numeral_eq_Suc)
qed

text \<open>
  Claim C5. For a store whose arrays have matching lengths, compaction leaves a store
  whose points are exactly the points of the old store with status 0 (alive), in their
  original order: position, colour, status and intensity of each kept point are those it
  had. The new arrays have as many points as the old status array had zeros, and the
  value returned is the number of points removed. (Selections are reset to 0 and LOD
  indices renumbered; they are not part of a point here.) The witness is the scenario of
  five points with status alive, deleted, alive, deleted, alive.
\<close>

theorem compact_keeps_alive:
  assumes "buffersRef e = Some b" and "geometryRef e = Some g" and "well_formed b"
  shows "\<exists>b'. buffersRef (snd (compactBuffersAfterApply e)) = Some b' \<and>
           well_formed b' \<and>
           points_of b' = filter point_alive (points_of b) \<and>
           length (status b') = length (filter (\<lambda>s. s = 0) (status b)) \<and>
           fst (compactBuffersAfterApply e) = length (status b) - length (status b')"
proof -
  let ?n = "length (status b)"
  let ?keep = "filter (\<lambda>i. status b ! i = 0) [0..<?n]"
  have N: "length (positions b) div 3 = ?n"
    using assms(3) by (simp add: well_formed_def)
  have cnt: "length (filter (\<lambda>s. s = 0) (status b)) = length ?keep"
    by (rule length_filter_by_index)
  show ?thesis
  proof (cases "length ?keep = ?n")
    case True
    then have k: "?keep = [0..<?n]" using filter_full_length[of _ "[0..<?n]"] by simp
    have "filter point_alive (points_of b) = map (point_at b) ?keep" by (rule alive_points)
    then have "filter point_alive (points_of b) = points_of b"
      by (simp only: k points_of_def)
    moreover have "compactBuffersAfterApply e = (0, e)"
      using True by (simp add: compact_unfold[OF assms(1,2) N] Let_def)
    ultimately show ?thesis using assms(1,3) cnt True by simp
  next
    case False
    define c where "c = length ?keep"
    define Z where "Z = \<lparr>positions = replicate (c * 3) 0, colors = replicate (c * 3) (Num 0),
               status = replicate c 0, selections = replicate c (0::u8),
               intensities = (if intensities b \<noteq> None then Some (replicate c (Num 0)) else None),
               lodIndex = (if lodIndex b \<noteq> None then Some (replicate c (0::nat)) else None)\<rparr>"
    define nb where "nb = copy_loop b ?keep 0 Z"
    have res: "compactBuffersAfterApply e =
                 (?n - c, e\<lparr>buffersRef := Some nb,
                              geometryRef := Some (g\<lparr>drawRange_count := c\<rparr>)\<rparr>)"
      using False by (simp add: compact_unfold[OF assms(1,2) N] Let_def nb_def Z_def c_def)
    have wz: "well_formed Z" by (simp add: well_formed_def Z_def)
    have sz: "same_shape b Z" by (simp add: same_shape_def Z_def)
    have inr: "\<forall>i \<in> set ?keep. i < ?n" by simp
    have cap: "0 + length ?keep \<le> length (status Z)" by (simp add: Z_def c_def)
    note C = copy_loop_points[OF assms(3) wz sz inr cap, folded nb_def]
    have wf: "well_formed nb" using C by simp
    have len: "length (status nb) = c" using C by (simp add: Z_def)
    have pts: "point_at nb k = point_at b (?keep ! k)" if k: "k < c" for k
    proof -
      have "?keep ! k \<in> set ?keep" using k unfolding c_def by (rule nth_mem)
      then have al: "status b ! (?keep ! k) = 0" by simp
      have "point_at nb (0 + k) =
              (fst (point_at b (?keep ! k)), fst (snd (point_at b (?keep ! k))), 0,
               snd (snd (snd (point_at b (?keep ! k)))))"
        using C k unfolding c_def by blast
      moreover have "fst (snd (snd (point_at b (?keep ! k)))) = 0"
        using al by (simp add: point_at_def)
      ultimately show ?thesis
        by (simp add: prod_eq_iff)
    qed
    have "map (point_at nb) [0..<c] = map (\<lambda>k. point_at b (?keep ! k)) [0..<c]"
      by (rule map_cong[OF refl]) (simp add: pts)
    then have "points_of nb = map (\<lambda>k. point_at b (?keep ! k)) [0..<length ?keep]"
      by (simp only: points_of_def len c_def)
    also have "\<dots> = map (point_at b) ?keep" by (rule map_through_nth)
    finally have P: "points_of nb = filter point_alive (points_of b)"
      by (simp only: alive_points)
    show ?thesis
      using res wf len P cnt by (simp add: c_def)
  qed
qed

theorem compact_keeps_alive_witness:
  "well_formed five_points \<and>
   (\<exists>b'. buffersRef (snd (compactBuffersAfterApply five_editor)) = Some b' \<and>
      positions b' = [10,11,12, 30,31,32, 50,51,52] \<and>
      points_of b' = filter point_alive (points_of five_points) \<and>
      length (status b') = 3 \<and>
      fst (compactBuffersAfterApply five_editor) = 2)"
proof -
  have a: "buffersRef five_editor = Some five_points"
    and g: "geometryRef five_editor = Some \<lparr>drawRange_count = 5\<rparr>"
    by (simp_all add: five_editor_def)
  have w: "well_formed five_points"
    by (simp add: well_formed_def five_points_def)
  from compact_keeps_alive[OF a g w] w show ?thesis
    by (auto simp: compact_five)
qed

section \<open>Contiguous draw range\<close>

lemma index_map_snoc:
  "index_map (ts @ [t]) = (index_map ts)(tile_id t \<mapsto> length ts)"
  by (simp add: index_map_def)

lemma index_map_nth:
  assumes "distinct (map tile_id ts)" and "i < length ts"
  shows "index_map ts (tile_id (ts ! i)) = Some i"
  using assms
proof (induction ts rule: rev_induct)
  case Nil
  then show ?case by simp
next
  case (snoc t ts)
  show ?case
  proof (cases "i = length ts")
    case True
    then show ?thesis by (simp add: index_map_snoc)
  next
    case False
    then have i: "i < length ts" using snoc.prems(2) by simp
    then have "tile_id (ts ! i) \<in> tile_id ` set ts" by simp
    then have "tile_id (ts ! i) \<noteq> tile_id t" using snoc.prems(1) by auto
    moreover have "index_map ts (tile_id (ts ! i)) = Some i"
      using snoc.IH snoc.prems(1) i by simp
    ultimately show ?thesis using i by (simp add: index_map_snoc nth_append)
  qed
qed

lemma advance_head_props:
  assumes "length flags = length ts" and "h \<le> length ts"
  shows "h \<le> advance_head ts flags h \<and> advance_head ts flags h \<le> length ts \<and>
         (\<forall>i. h \<le> i \<and> i < advance_head ts flags h \<longrightarrow> flags ! i) \<and>
         (advance_head ts flags h < length ts \<longrightarrow> \<not> flags ! advance_head ts flags h)"
  using assms
proof (induction ts flags h rule: advance_head.induct)
  case (1 ts flags h)
  show ?case
  proof (cases "h < length ts \<and> h < length flags \<and> flags ! h")
    case True
    then have eq: "advance_head ts flags h = advance_head ts flags (h + 1)"
      by (subst advance_head.simps) simp
    have IH: "h + 1 \<le> advance_head ts flags (h + 1) \<and> advance_head ts flags (h + 1) \<le> length ts \<and>
         (\<forall>i. h + 1 \<le> i \<and> i < advance_head ts flags (h + 1) \<longrightarrow> flags ! i) \<and>
         (advance_head ts flags (h + 1) < length ts \<longrightarrow> \<not> flags ! advance_head ts flags (h + 1))"
      using "1.IH"[OF True "1.prems"(1)] True by simp
    have "\<forall>i. h \<le> i \<and> i < advance_head ts flags (h + 1) \<longrightarrow> flags ! i"
    proof (intro allI impI)
      fix i assume a: "h \<le> i \<and> i < advance_head ts flags (h + 1)"
      show "flags ! i"
      proof (cases "i = h")
        case True
        then show ?thesis using \<open>h < length ts \<and> h < length flags \<and> flags ! h\<close> by simp
      next
        case False
        then have "h + 1 \<le> i" using a by simp
        then show ?thesis using IH a by blast
      qed
    qed
    then show ?thesis using IH eq by simp
  next
    case False
    have eq: "advance_head ts flags h = h"
      by (subst advance_head.simps) (simp only: False if_False)
    show ?thesis using False "1.prems" by (auto simp: eq)
  qed
qed

lemma mark_loaded_inv:
  assumes inv: "loader_inv S D L" and d: "distinct (map tile_id S)" and t: "t \<in> set S"
  shows "loader_inv S (insert t D) (mark_loaded pt t L) \<and> range_settled pt (mark_loaded pt t L)"
proof -
  obtain idx where idx: "idx < length S" "S ! idx = t"
    using t by (auto simp: in_set_conv_nth)
  have dS: "distinct S" using d by (rule distinct_map[THEN iffD1, THEN conjunct1])
  have look: "indexById L (tile_id t) = Some idx"
    using inv index_map_nth[OF d idx(1)] idx(2) by (simp add: loader_inv_def)
  let ?F = "(loadedFlags L)[idx := True]"
  let ?h = "advance_head S ?F (headIdx L)"
  have lenF: "length ?F = length S" using inv by (simp add: loader_inv_def)
  have hle: "headIdx L \<le> length S" using inv by (simp add: loader_inv_def)
  note A = advance_head_props[OF lenF hle]
  have res: "mark_loaded pt t L =
           L\<lparr>loadedFlags := ?F, headIdx := ?h,
             drawRange := (if ?h < length S then base_index (S ! ?h) else pt)\<rparr>"
    using inv look
    by (simp add: mark_loaded_def updateDrawRangeForContiguousPrefix_def Let_def loader_inv_def)
  have flags: "\<forall>i < length S. ?F ! i = (S ! i \<in> insert t D)"
  proof (intro allI impI)
    fix i assume i: "i < length S"
    show "?F ! i = (S ! i \<in> insert t D)"
    proof (cases "i = idx")
      case True
      then show ?thesis using idx lenF by simp
    next
      case False
      then have "S ! i \<noteq> t" using dS idx i by (auto simp: nth_eq_iff_index_eq)
      moreover have "loadedFlags L ! i = (S ! i \<in> D)" using inv i by (simp add: loader_inv_def)
      ultimately show ?thesis using False by simp
    qed
  qed
  have below: "\<forall>i < ?h. ?F ! i"
  proof (intro allI impI)
    fix i assume i: "i < ?h"
    show "?F ! i"
    proof (cases "i < headIdx L")
      case True
      then have "loadedFlags L ! i" using inv unfolding loader_inv_def by blast
      then show ?thesis using True hle lenF by (cases "i = idx") simp_all
    next
      case False
      then show ?thesis using A i by auto
    qed
  qed
  show ?thesis
    using inv A flags below lenF
    by (simp add: res loader_inv_def range_settled_def)
qed

lemma prepare_inv:
  "loader_inv (sort_key base_index tiles) {} (prepare_loader tiles)"
  by (simp add: loader_inv_def prepare_loader_def Let_def)

text \<open>A completion whose initializer does not throw marks its tile when it was parsed.\<close>

lemma tryInitializeCameraPose_returns:
  assumes "\<forall>s. \<not> isl (stages s)"
  shows "\<exists>r. tryInitializeCameraPose stages p rr n = Inr r"
proof (cases "pose_sample_indices p rr n")
  case None
  then have "tryInitializeCameraPose stages p rr n = Inr False"
    by (simp add: tryInitializeCameraPose_def)
  then show ?thesis by blast
next
  case (Some samples)
  show ?thesis
  proof (cases "length samples < 3")
    case True
    then have "tryInitializeCameraPose stages p rr n = Inr False"
      using Some by (simp add: tryInitializeCameraPose_def)
    then show ?thesis by blast
  next
    case False
    then show ?thesis
      using Some assms[rule_format, of samples]
      by (cases "stages samples") (auto simp: tryInitializeCameraPose_def)
  qed
qed

lemma loader_inv_counters:
  "loader_inv S D (L\<lparr>totalLoaded := n\<rparr>) = loader_inv S D L"
  "loader_inv S D (L\<lparr>poseInitialized := r\<rparr>) = loader_inv S D L"
  "loader_inv S D (L\<lparr>load_errors := es\<rparr>) = loader_inv S D L"
  by (simp_all add: loader_inv_def)

lemma range_settled_counters:
  "range_settled pt (L\<lparr>load_errors := es\<rparr>) = range_settled pt L"
  by (simp add: range_settled_def)

lemma runOne_parsed_inv:
  assumes inv: "loader_inv S D L" and d: "distinct (map tile_id S)" and t: "t \<in> set S"
      and st: "\<forall>s. \<not> isl (stages s)"
  shows "loader_inv S (insert t D) (runOne pt rr (t, None, stages) L) \<and>
         range_settled pt (runOne pt rr (t, None, stages) L)"
proof -
  let ?L1 = "L\<lparr>totalLoaded := totalLoaded L + points t\<rparr>"
  have i1: "loader_inv S D ?L1" using inv by (simp only: loader_inv_counters)
  show ?thesis
  proof (cases "poseInitialized L")
    case True
    then have "runOne pt rr (t, None, stages) L = mark_loaded pt t ?L1"
      by (simp add: runOne_def Let_def)
    then show ?thesis using mark_loaded_inv[OF i1 d t, of pt] by simp
  next
    case False
    obtain r where r: "tryInitializeCameraPose stages False rr (int (drawRange L)) = Inr r"
      using tryInitializeCameraPose_returns[OF st] by blast
    have i2: "loader_inv S D (?L1\<lparr>poseInitialized := r\<rparr>)"
      using inv by (simp only: loader_inv_counters)
    have "runOne pt rr (t, None, stages) L = mark_loaded pt t (?L1\<lparr>poseInitialized := r\<rparr>)"
      using False r by (simp add: runOne_def Let_def)
    then show ?thesis using mark_loaded_inv[OF i2 d t, of pt] by simp
  qed
qed

lemma runOne_failed_inv:
  assumes "loader_inv S D L"
  shows "loader_inv S D (runOne pt rr (t, Some err, stages) L) \<and>
         (range_settled pt L \<longrightarrow> range_settled pt (runOne pt rr (t, Some err, stages) L))"
  using assms by (simp add: runOne_def loader_inv_counters range_settled_counters)

lemma fold_runOne_inv:
  assumes "loader_inv S D L" and "distinct (map tile_id S)" and "fst ` set cs \<subseteq> set S"
      and "\<forall>c \<in> set cs. \<forall>s. \<not> isl (snd (snd c) s)"
  shows "loader_inv S (D \<union> set (parsed_tiles cs)) (fold (runOne pt rr) cs L) \<and>
         (parsed_tiles cs \<noteq> [] \<longrightarrow> range_settled pt (fold (runOne pt rr) cs L))"
  using assms
proof (induction cs arbitrary: D L rule: rev_induct)
  case Nil
  then show ?case by (simp add: parsed_tiles_def)
next
  case (snoc c cs)
  obtain t fetched stages where c: "c = (t, fetched, stages)" by (cases c) auto
  let ?L = "fold (runOne pt rr) cs L"
  have a: "loader_inv S (D \<union> set (parsed_tiles cs)) ?L"
      and b: "parsed_tiles cs \<noteq> [] \<longrightarrow> range_settled pt ?L"
    using snoc by simp_all
  have t: "t \<in> set S" using snoc.prems(3) c by simp
  have st: "\<forall>s. \<not> isl (stages s)" using snoc.prems(4) c by simp
  have f: "fold (runOne pt rr) (cs @ [c]) L = runOne pt rr (t, fetched, stages) ?L"
    by (simp add: c)
  show ?case
  proof (cases fetched)
    case None
    have p: "parsed_tiles (cs @ [c]) = parsed_tiles cs @ [t]"
      by (simp add: parsed_tiles_def c None)
    have e: "D \<union> set (parsed_tiles cs @ [t]) = insert t (D \<union> set (parsed_tiles cs))" by auto
    from runOne_parsed_inv[OF a snoc.prems(2) t st, of pt rr]
    show ?thesis unfolding f p e None by simp
  next
    case (Some err)
    have p: "parsed_tiles (cs @ [c]) = parsed_tiles cs"
      by (simp add: parsed_tiles_def c Some)
    from runOne_failed_inv[OF a, of pt rr t err stages] b
    show ?thesis unfolding f p Some by simp
  qed
qed

text \<open>
  While the initializer does not throw, the draw range is what the loader means it to be.
  For a tile list with pairwise distinct ids (the loader keys its flags by id) and every
  sequence of completions of its tiles, in any order, of which at least one was parsed:
  the count is the \<open>base_index\<close> of the first tile, in \<open>base_index\<close> order, that has not been
  parsed, or \<open>points_total\<close> when there is none, and it is at most the \<open>base_index\<close> of every
  tile not parsed, so the range \<open>[0, count)\<close> holds no index of such a tile.
\<close>

lemma contiguous_prefix_when_pose_returns:
  assumes "distinct (map tile_id tiles)" and "fst ` set cs \<subseteq> set tiles"
      and "\<forall>c \<in> set cs. \<forall>s. \<not> isl (snd (snd c) s)"
      and "parsed_tiles cs \<noteq> []"
  shows "drawRange (fold (runOne pt rr) cs (prepare_loader tiles)) =
           (case find (\<lambda>t. t \<notin> set (parsed_tiles cs)) (sort_key base_index tiles) of
              None \<Rightarrow> pt
            | Some t \<Rightarrow> base_index t) \<and>
         (\<forall>u \<in> set tiles. u \<notin> set (parsed_tiles cs) \<longrightarrow>
            drawRange (fold (runOne pt rr) cs (prepare_loader tiles)) \<le> base_index u)"
proof -
  define S where "S = sort_key base_index tiles"
  define L where "L = fold (runOne pt rr) cs (prepare_loader tiles)"
  define ds where "ds = parsed_tiles cs"
  have setS: "set S = set tiles" by (simp add: S_def)
  have dS: "distinct (map tile_id S)"
    using assms(1) by (simp add: distinct_map S_def)
  have srt: "sorted (map base_index S)" by (simp add: S_def)
  have sub: "fst ` set cs \<subseteq> set S" using assms(2) setS by simp
  have "loader_inv S ({} \<union> set ds) L \<and> (ds \<noteq> [] \<longrightarrow> range_settled pt L)"
    unfolding L_def ds_def
    using fold_runOne_inv[OF prepare_inv[of tiles, folded S_def] dS sub assms(3)] .
  then have inv: "loader_inv S (set ds) L" and rs: "range_settled pt L"
    using assms(4) by (simp_all add: ds_def)
  define h where "h = headIdx L"
  have sL: "sortedTiles L = S" using inv by (simp add: loader_inv_def)
  have hle: "h \<le> length S" using inv by (simp add: loader_inv_def h_def)
  have below: "\<And>i. i < h \<Longrightarrow> S ! i \<in> set ds"
    using inv hle unfolding loader_inv_def h_def by auto
  have at: "h < length S \<Longrightarrow> S ! h \<notin> set ds"
    using inv rs unfolding loader_inv_def range_settled_def h_def by auto
  have dr: "drawRange L = (if h < length S then base_index (S ! h) else pt)"
    using rs sL by (simp add: range_settled_def h_def)
  have fnd: "find (\<lambda>t. t \<notin> set ds) S = (if h < length S then Some (S ! h) else None)"
  proof (cases "h < length S")
    case True
    have "find (\<lambda>t. t \<notin> set ds) S = Some (S ! h)"
      unfolding find_Some_iff using True at below by blast
    then show ?thesis using True by simp
  next
    case False
    then have "h = length S" using hle by simp
    then have "\<forall>x \<in> set S. x \<in> set ds" using below by (auto simp: in_set_conv_nth)
    then have "find (\<lambda>t. t \<notin> set ds) S = None" by (simp add: find_None_iff)
    then show ?thesis using False by simp
  qed
  have safe: "\<forall>u \<in> set tiles. u \<notin> set ds \<longrightarrow> drawRange L \<le> base_index u"
  proof (intro ballI impI)
    fix u assume u: "u \<in> set tiles" "u \<notin> set ds"
    then have "u \<in> set S" using setS by simp
    then obtain k where k: "k < length S" "S ! k = u"
      unfolding in_set_conv_nth by blast
    have hk: "h \<le> k" using below k u(2) by (meson not_le)
    then have hn: "h < length S" using k by simp
    have "map base_index S ! h \<le> map base_index S ! k"
      using srt hk k by (intro sorted_nth_mono) simp_all
    then show "drawRange L \<le> base_index u" using dr hn k by simp
  qed
  show ?thesis
    using dr fnd safe unfolding L_def S_def ds_def by (simp split: if_splits)
qed

text \<open>
  The scenario of three tiles of 1000 points completing in the order tile2, tile0, tile1:
  the range is 0, then 1000, then 3000. The draw range stays below 20000, so the
  initializer returns before sampling.
\<close>

lemma three_tiles_sorted: "sort_key base_index [tile1, tile0, tile2] = [tile0, tile1, tile2]"
  by (simp add: tile0_def tile1_def tile2_def)

lemma three_tiles_distinct:
  "distinct (map tile_id [tile1, tile0, tile2])"
  "tile0 \<noteq> tile1" "tile0 \<noteq> tile2" "tile1 \<noteq> tile2"
  by (simp_all add: tile0_def tile1_def tile2_def)

lemma three_tiles_scenario:
  "drawRange (fold (runOne 3000 True) [(tile2, None, spread_stages 0)]
     (prepare_loader [tile1, tile0, tile2])) = 0 \<and>
   drawRange (fold (runOne 3000 True) [(tile2, None, spread_stages 0), (tile0, None, spread_stages 0)]
     (prepare_loader [tile1, tile0, tile2])) = 1000 \<and>
   drawRange (fold (runOne 3000 True)
     [(tile2, None, spread_stages 0), (tile0, None, spread_stages 0), (tile1, None, spread_stages 0)]
     (prepare_loader [tile1, tile0, tile2])) = 3000"
proof -
  have i: "index_map [tile0, tile1, tile2] = [''tile0'' \<mapsto> 0, ''tile1'' \<mapsto> 1, ''tile2'' \<mapsto> 2]"
    by (simp add: index_map_def tile0_def tile1_def tile2_def upt_rec[of 0] upt_rec[of 1] upt_rec[of 2]
        numeral_2_eq_2)
  have b: "base_index tile0 = 0" "base_index tile1 = 1000" "base_index tile2 = 2000"
          "tile_id tile0 = ''tile0''" "tile_id tile1 = ''tile1''" "tile_id tile2 = ''tile2''"
    by (simp_all add: tile0_def tile1_def tile2_def)
  have p: "pose_sample_indices False True 0 = None" "pose_sample_indices False True 1000 = None"
    by (simp_all add: pose_sample_indices_def to_int32_def)
  have h: "advance_head [tile0, tile1, tile2] [False, False, True] 0 = 0"
          "advance_head [tile0, tile1, tile2] [True, False, True] 0 = Suc 0"
          "advance_head [tile0, tile1, tile2] [True, True, True] (Suc 0) = 3"
    by ((subst advance_head.simps, simp)+)+
  show ?thesis
    by (simp add: prepare_loader_def three_tiles_sorted i b p h runOne_def mark_loaded_def
        tryInitializeCameraPose_def updateDrawRangeForContiguousPrefix_def Let_def
        list_update_Cons_numeral nth_Cons')
qed

text \<open>
  With two descriptors sharing an id the map keeps the later position, the flag of the
  tile that completed is not set, and the range stays behind the first tile not loaded.
\<close>

lemma advance_head_shared_id: "advance_head [tile0, tile0_again] [False, True] 0 = 0"
  by (subst advance_head.simps) simp

lemma shared_id_example:
  "drawRange (fold (runOne 2000 True) [(tile0, None, spread_stages 0)]
     (prepare_loader [tile0, tile0_again])) = 0 \<and>
   find (\<lambda>t. t \<notin> set [tile0]) (sort_key base_index [tile0, tile0_again]) = Some tile0_again \<and>
   base_index tile0_again = 1000"
proof -
  have s: "sort_key base_index [tile0, tile0_again] = [tile0, tile0_again]"
    by (simp add: tile0_def tile0_again_def)
  have i: "index_map [tile0, tile0_again] (tile_id tile0) = Some 1"
    by (simp add: index_map_def tile0_def tile0_again_def numeral_2_eq_2)
  have n: "tile0 \<noteq> tile0_again" by (simp add: tile0_def tile0_again_def)
  have b: "base_index tile0 = 0" "base_index tile0_again = 1000"
    by (simp_all add: tile0_def tile0_again_def)
  have p: "pose_sample_indices False True 0 = None"
    by (simp add: pose_sample_indices_def to_int32_def)
  show ?thesis
    using n b
    by (simp add: prepare_loader_def s i runOne_def mark_loaded_def tryInitializeCameraPose_def p
        updateDrawRangeForContiguousPrefix_def advance_head_shared_id Let_def)
qed

text \<open>
  Claim C1. The marking of a tile shares the \<^verbatim>\<open>try\<close> of \<^verbatim>\<open>runOne\<close> with the camera-pose
  initializer that runs just before it, so an exception of the initializer leaves a tile
  that is parsed and counted without its flag, and the draw range behind it. Tiles
  \<open>tile_a\<close> (239999 points from index 0) and \<open>tile_b\<close> (one point at index 239999) complete
  in this order. After \<open>tile_a\<close> the range is 239999. At the completion of \<open>tile_b\<close> the
  initializer samples all 239999 points of the range; on an engine whose calls take at
  most 200000 arguments \<^verbatim>\<open>Math.min(...longs)\<close> throws: both tiles are parsed, the loaded
  point count is 240000, yet the flag of \<open>tile_b\<close> is not set and the range stays 239999,
  where the first tile not loaded does not exist and \<open>points_total\<close> is 240000. When the
  call takes its arguments the range is 240000.
\<close>

theorem pose_exception_skips_marking:
  "drawRange (fold (runOne 240000 True) [(tile_a, None, spread_stages 200000)]
     (prepare_loader [tile_a, tile_b])) = 239999 \<and>
   drawRange (fold (runOne 240000 True)
     [(tile_a, None, spread_stages 200000), (tile_b, None, spread_stages 200000)]
     (prepare_loader [tile_a, tile_b])) = 239999 \<and>
   totalLoaded (fold (runOne 240000 True)
     [(tile_a, None, spread_stages 200000), (tile_b, None, spread_stages 200000)]
     (prepare_loader [tile_a, tile_b])) = 240000 \<and>
   loadedFlags (fold (runOne 240000 True)
     [(tile_a, None, spread_stages 200000), (tile_b, None, spread_stages 200000)]
     (prepare_loader [tile_a, tile_b])) = [True, False] \<and>
   load_errors (fold (runOne 240000 True)
     [(tile_a, None, spread_stages 200000), (tile_b, None, spread_stages 200000)]
     (prepare_loader [tile_a, tile_b])) = [RangeError] \<and>
   find (\<lambda>t. t \<notin> set (parsed_tiles
     [(tile_a, None, spread_stages 200000), (tile_b, None, spread_stages 200000)]))
     (sort_key base_index [tile_a, tile_b]) = None \<and>
   drawRange (fold (runOne 240000 True)
     [(tile_a, None, spread_stages 240000), (tile_b, None, spread_stages 240000)]
     (prepare_loader [tile_a, tile_b])) = 240000"
proof -
  have s: "sort_key base_index [tile_a, tile_b] = [tile_a, tile_b]"
    by (simp add: tile_a_def tile_b_def)
  have i: "index_map [tile_a, tile_b] = [''a'' \<mapsto> 0, ''b'' \<mapsto> 1]"
    by (simp add: index_map_def tile_a_def tile_b_def upt_rec[of 0] upt_rec[of 1])
  have b: "base_index tile_a = 0" "base_index tile_b = 239999"
          "points tile_a = 239999" "points tile_b = 1"
          "tile_id tile_a = ''a''" "tile_id tile_b = ''b''"
    by (simp_all add: tile_a_def tile_b_def)
  have p0: "pose_sample_indices False True 0 = None"
    by (simp add: pose_sample_indices_def to_int32_def)
  have p1: "pose_sample_indices False True 239999 = Some (sample_loop 239999 0)"
    by (simp add: pose_sample_indices_def to_int32_def)
  have n: "length (sample_loop 239999 0) = 239999"
    by (simp add: length_sample_loop stride_def maxSamples_def)
  have h: "advance_head [tile_a, tile_b] [True, False] 0 = Suc 0"
          "advance_head [tile_a, tile_b] [True, True] (Suc 0) = 2"
    by ((subst advance_head.simps, simp)+)+
  have d: "tile_a \<noteq> tile_b" by (simp add: tile_a_def tile_b_def)
  show ?thesis
    using d
    by (simp add: prepare_loader_def s i b p0 p1 n h runOne_def mark_loaded_def
        tryInitializeCameraPose_def spread_stages_def parsed_tiles_def
        updateDrawRangeForContiguousPrefix_def Let_def nth_Cons')
qed

section \<open>Commit of a pending selection\<close>

lemma chunk_loop_run_plan:
  "chunk_loop appendOps sid act ixs i cv e =
     run_plan appendOps (number_reqs sid cv (map (Pair act) (chunks_at ixs i))) cv e"
proof (induction appendOps sid act ixs i cv e rule: chunk_loop.induct)
  case (1 appendOps sid act ixs i cv e)
  show ?case
  proof (cases "i < length ixs")
    case False
    then show ?thesis
      by (subst chunk_loop.simps, subst chunks_at.simps) simp
  next
    case True
    let ?req = "\<lparr>sessionId = sid, baseVersion = cv, action = act,
                  indices = take MAX_INDICES_PER_OP (drop i ixs)\<rparr>"
    have c: "chunks_at ixs i =
               take MAX_INDICES_PER_OP (drop i ixs) # chunks_at ixs (i + MAX_INDICES_PER_OP)"
      using True by (subst chunks_at.simps) simp
    show ?thesis
    proof (cases "appendOps ?req")
      case None
      have "chunk_loop appendOps sid act ixs i cv e =
              chunk_loop appendOps sid act ixs (i + MAX_INDICES_PER_OP) (cv + 1)
                (e\<lparr>appended := appended e @ [?req], sessionVersionRef := cv + 1\<rparr>)"
        using True None by (subst chunk_loop.simps) (simp add: Let_def)
      also have "\<dots> = run_plan appendOps
             (number_reqs sid (cv + 1) (map (Pair act) (chunks_at ixs (i + MAX_INDICES_PER_OP))))
             (cv + 1) (e\<lparr>appended := appended e @ [?req], sessionVersionRef := cv + 1\<rparr>)"
        using "1.IH"[OF True refl refl refl None] by simp
      finally show ?thesis using None by (simp add: c)
    next
      case (Some err)
      have "chunk_loop appendOps sid act ixs i cv e =
              (Some err, cv, e\<lparr>appended := appended e @ [?req]\<rparr>)"
        using True Some by (subst chunk_loop.simps) (simp add: Let_def)
      then show ?thesis using Some by (simp add: c)
    qed
  qed
qed

lemma number_reqs_append:
  "number_reqs sid v (xs @ ys) = number_reqs sid v xs @ number_reqs sid (v + length xs) ys"
  by (induction xs arbitrary: v) auto

lemma length_number_reqs [simp]: "length (number_reqs sid v cs) = length cs"
  by (induction cs arbitrary: v) auto

lemma run_plan_append:
  "run_plan appendOps (p1 @ p2) cv e =
     (case run_plan appendOps p1 cv e of
        (Some err, cv', e') \<Rightarrow> (Some err, cv', e')
      | (None, cv', e') \<Rightarrow> run_plan appendOps p2 cv' e')"
  by (induction p1 arbitrary: cv e) (auto split: option.splits)

lemma run_plan_success_version:
  "run_plan appendOps p cv e = (None, cv', e') \<Longrightarrow> cv' = cv + length p"
proof (induction p arbitrary: cv e)
  case Nil
  then show ?case by simp
next
  case (Cons a p)
  show ?case
  proof (cases "appendOps a")
    case None
    with Cons.prems have "run_plan appendOps p (cv + 1)
        (e\<lparr>appended := appended e @ [a], sessionVersionRef := cv + 1\<rparr>) = (None, cv', e')"
      by simp
    from Cons.IH[OF this] show ?thesis by simp
  next
    case (Some err)
    with Cons.prems show ?thesis by simp
  qed
qed

lemma ops_loop_run_plan:
  "ops_loop appendOps sid ops cv e = run_plan appendOps (commit_plan sid cv ops) cv e"
proof (induction ops arbitrary: cv e)
  case Nil
  then show ?case by (simp add: commit_plan_def)
next
  case (Cons op rest)
  let ?p1 = "number_reqs sid cv (map (Pair (fst op)) (chunks_at (snd op) 0))"
  have split: "commit_plan sid cv (op # rest) = ?p1 @ commit_plan sid (cv + length ?p1) rest"
    by (simp add: commit_plan_def number_reqs_append)
  show ?case
  proof (cases "run_plan appendOps ?p1 cv e")
    case (fields r cv' e')
    show ?thesis
    proof (cases r)
      case None
      then have "cv' = cv + length ?p1" using fields run_plan_success_version by blast
      then show ?thesis
        using fields None Cons.IH
        by (simp add: split run_plan_append chunk_loop_run_plan del: length_number_reqs)
    next
      case (Some err)
      then show ?thesis
        using fields by (simp add: split run_plan_append chunk_loop_run_plan)
    qed
  qed
qed

lemma run_plan_result:
  "run_plan appendOps plan cv e =
     (if accepted appendOps plan < length plan
      then appendOps (plan ! accepted appendOps plan) else None,
      cv + accepted appendOps plan,
      e\<lparr>appended := appended e @ take (Suc (accepted appendOps plan)) plan,
        sessionVersionRef :=
          (if accepted appendOps plan = 0 then sessionVersionRef e
           else cv + accepted appendOps plan)\<rparr>)"
proof (induction plan arbitrary: cv e)
  case Nil
  then show ?case by (simp add: accepted_def)
next
  case (Cons r rs)
  show ?case
  proof (cases "appendOps r")
    case None
    then have a: "accepted appendOps (r # rs) = Suc (accepted appendOps rs)"
      by (simp add: accepted_def)
    show ?thesis
      unfolding a using None Cons.IH by simp
  next
    case (Some err)
    then have a: "accepted appendOps (r # rs) = 0" by (simp add: accepted_def)
    show ?thesis unfolding a using Some by simp
  qed
qed

lemma length_chunks_at:
  "length (chunks_at ixs i) = (length ixs - i + 19999) div 20000"
proof (induction ixs i rule: chunks_at.induct)
  case (1 ixs i)
  show ?case
  proof (cases "i < length ixs")
    case True
    have "length (chunks_at ixs i) = Suc ((length ixs - (i + 20000) + 19999) div 20000)"
      using True 1 by (subst chunks_at.simps) (simp add: MAX_INDICES_PER_OP_def)
    also have "length ixs - (i + 20000) = length ixs - i - Suc 19999" by simp
    also have "Suc ((length ixs - i - Suc 19999 + 19999) div 20000) =
               (length ixs - i + 19999) div 20000"
      using ceil_div_step[of "length ixs - i" 19999] True by simp
    finally show ?thesis .
  next
    case False
    then show ?thesis by (subst chunks_at.simps) simp
  qed
qed

lemma chunks_at_bounded:
  "c \<in> set (chunks_at ixs i) \<Longrightarrow> length c \<le> 20000 \<and> c \<noteq> []"
proof (induction ixs i rule: chunks_at.induct)
  case (1 ixs i)
  show ?case
  proof (cases "i < length ixs")
    case True
    then have "chunks_at ixs i =
        take MAX_INDICES_PER_OP (drop i ixs) # chunks_at ixs (i + MAX_INDICES_PER_OP)"
      by (subst chunks_at.simps) simp
    then have "c = take MAX_INDICES_PER_OP (drop i ixs) \<or>
               c \<in> set (chunks_at ixs (i + MAX_INDICES_PER_OP))"
      using "1.prems" by simp
    then show ?thesis
    proof
      assume "c = take MAX_INDICES_PER_OP (drop i ixs)"
      then show ?thesis using True by (simp add: MAX_INDICES_PER_OP_def)
    next
      assume "c \<in> set (chunks_at ixs (i + MAX_INDICES_PER_OP))"
      then show ?thesis using "1.IH"[OF True] by simp
    qed
  next
    case False
    then have "chunks_at ixs i = []" by (subst chunks_at.simps) simp
    with "1.prems" show ?thesis by simp
  qed
qed

lemma concat_chunks_at: "concat (chunks_at ixs i) = drop i ixs"
proof (induction ixs i rule: chunks_at.induct)
  case (1 ixs i)
  show ?case
  proof (cases "i < length ixs")
    case True
    have "concat (chunks_at ixs i) =
            take MAX_INDICES_PER_OP (drop i ixs) @ drop (i + MAX_INDICES_PER_OP) ixs"
      using True 1 by (subst chunks_at.simps) simp
    also have "drop (i + MAX_INDICES_PER_OP) ixs = drop MAX_INDICES_PER_OP (drop i ixs)"
      by (simp add: add.commute)
    also have "take MAX_INDICES_PER_OP (drop i ixs) @ drop MAX_INDICES_PER_OP (drop i ixs) =
               drop i ixs"
      by (rule append_take_drop_id)
    finally show ?thesis .
  next
    case False
    then show ?thesis by (subst chunks_at.simps) simp
  qed
qed

lemma number_reqs_fields:
  "map baseVersion (number_reqs sid v cs) = [v..<v + length cs]"
  "map action (number_reqs sid v cs) = map fst cs"
  "map indices (number_reqs sid v cs) = map snd cs"
proof -
  show "map baseVersion (number_reqs sid v cs) = [v..<v + length cs]"
    by (induction cs arbitrary: v) (auto simp: upt_rec)
  show "map action (number_reqs sid v cs) = map fst cs"
    by (induction cs arbitrary: v) auto
  show "map indices (number_reqs sid v cs) = map snd cs"
    by (induction cs arbitrary: v) auto
qed

lemma pending_plan_pairs:
  "concat (map (\<lambda>op. map (Pair (fst op)) (chunks_at (snd op) 0)) (pending_ops e)) =
     map (Pair ''delete'') (chunks_at (pendingDeleteRef e) 0) @
     map (Pair ''restore'') (chunks_at (pendingRestoreRef e) 0)"
proof -
  have "chunks_at [] 0 = []" by (subst chunks_at.simps) simp
  then show ?thesis by (auto simp: pending_ops_def)
qed

lemma compact_keeps_log:
  "appended (snd (compactBuffersAfterApply e)) = appended e"
  "sessionVersionRef (snd (compactBuffersAfterApply e)) = sessionVersionRef e"
  "console_errors (snd (compactBuffersAfterApply e)) = console_errors e"
  by (auto simp: compactBuffersAfterApply_def Let_def split: option.splits)

lemma accepted_le: "accepted appendOps plan \<le> length plan"
  by (simp add: accepted_def length_takeWhile_le)

lemma accepted_rejects:
  assumes "accepted appendOps plan < length plan"
  shows "\<exists>err. appendOps (plan ! accepted appendOps plan) = Some err"
proof -
  have "\<not> (appendOps (plan ! accepted appendOps plan) = None)"
    using assms unfolding accepted_def by (rule nth_length_takeWhile)
  then show ?thesis by auto
qed

lemma accepted_before:
  assumes "q \<in> set (take (accepted appendOps plan) plan)"
  shows "appendOps q = None"
proof -
  have "take (accepted appendOps plan) plan = takeWhile (\<lambda>r. appendOps r = None) plan"
    unfolding accepted_def by (rule takeWhile_eq_take[symmetric])
  then show ?thesis using assms by (auto dest: set_takeWhileD)
qed

lemma empty_pending_plan:
  assumes "pendingDeleteRef e = []" and "pendingRestoreRef e = []"
  shows "commit_plan sid v (pending_ops e) = []"
  using assms by (simp add: commit_plan_def pending_ops_def)

lemma applySelection_nonempty:
  assumes "\<not> (pendingDeleteRef e = [] \<and> pendingRestoreRef e = [])"
  shows "applySelection (Some sid) appendOps e =
           (case applySelection_try appendOps sid e of
              (Some err, e') \<Rightarrow> (None, e'\<lparr>console_errors := console_errors e' @ [err]\<rparr>)
            | (None, e') \<Rightarrow> (None, e'))"
  using assms by (auto simp: applySelection_def)

text \<open>What a commit does when the chunk at position \<open>accepted\<close> of the plan is rejected.\<close>

lemma applySelection_rejected:
  assumes "accepted appendOps (commit_plan sid (sessionVersionRef e) (pending_ops e))
             < length (commit_plan sid (sessionVersionRef e) (pending_ops e))"
  shows "\<exists>err. appendOps (commit_plan sid (sessionVersionRef e) (pending_ops e)
                    ! accepted appendOps (commit_plan sid (sessionVersionRef e) (pending_ops e)))
                = Some err \<and>
           applySelection (Some sid) appendOps e =
             (None,
              e\<lparr>appended := appended e @
                   take (Suc (accepted appendOps (commit_plan sid (sessionVersionRef e) (pending_ops e))))
                     (commit_plan sid (sessionVersionRef e) (pending_ops e)),
                sessionVersionRef := sessionVersionRef e +
                   accepted appendOps (commit_plan sid (sessionVersionRef e) (pending_ops e)),
                console_errors := console_errors e @ [err]\<rparr>)"
proof -
  define plan where "plan = commit_plan sid (sessionVersionRef e) (pending_ops e)"
  define a where "a = accepted appendOps plan"
  have lt: "a < length plan" using assms by (simp add: plan_def a_def)
  obtain err where err: "appendOps (plan ! a) = Some err"
    using accepted_rejects[of appendOps plan] lt by (auto simp: a_def)
  have ne: "\<not> (pendingDeleteRef e = [] \<and> pendingRestoreRef e = [])"
    using lt empty_pending_plan[of e sid "sessionVersionRef e"] by (auto simp: plan_def)
  have loop: "ops_loop appendOps sid (pending_ops e) (sessionVersionRef e) e =
        (Some err, sessionVersionRef e + a,
         e\<lparr>appended := appended e @ take (Suc a) plan,
           sessionVersionRef := (if a = 0 then sessionVersionRef e else sessionVersionRef e + a)\<rparr>)"
    unfolding ops_loop_run_plan run_plan_result plan_def[symmetric] a_def[symmetric]
    using lt err by simp
  have sv: "(if a = 0 then sessionVersionRef e else sessionVersionRef e + a) = sessionVersionRef e + a"
    by simp
  have "applySelection (Some sid) appendOps e =
          (None, e\<lparr>appended := appended e @ take (Suc a) plan,
                    sessionVersionRef := sessionVersionRef e + a,
                    console_errors := console_errors e @ [err]\<rparr>)"
    by (simp add: applySelection_nonempty[OF ne] applySelection_try_def loop sv)
  then show ?thesis using err unfolding plan_def a_def by blast
qed

text \<open>What a commit leaves in the log of requests and in the version when every chunk is accepted.\<close>

lemma applySelection_accepted:
  assumes "accepted appendOps (commit_plan sid (sessionVersionRef e) (pending_ops e))
             = length (commit_plan sid (sessionVersionRef e) (pending_ops e))"
  shows "appended (snd (applySelection (Some sid) appendOps e)) =
           appended e @ commit_plan sid (sessionVersionRef e) (pending_ops e)"
    and "sessionVersionRef (snd (applySelection (Some sid) appendOps e)) =
           sessionVersionRef e + length (commit_plan sid (sessionVersionRef e) (pending_ops e))"
    and "console_errors (snd (applySelection (Some sid) appendOps e)) = console_errors e"
proof -
  define plan where "plan = commit_plan sid (sessionVersionRef e) (pending_ops e)"
  define a where "a = accepted appendOps plan"
  have eq: "a = length plan" using assms by (simp add: plan_def a_def)
  have loop: "ops_loop appendOps sid (pending_ops e) (sessionVersionRef e) e =
        (None, sessionVersionRef e + a,
         e\<lparr>appended := appended e @ plan,
           sessionVersionRef := sessionVersionRef e + a\<rparr>)"
    unfolding ops_loop_run_plan run_plan_result plan_def[symmetric] a_def[symmetric]
    using eq by simp
  have "appended (snd (applySelection (Some sid) appendOps e)) = appended e @ plan \<and>
        sessionVersionRef (snd (applySelection (Some sid) appendOps e)) = sessionVersionRef e + length plan \<and>
        console_errors (snd (applySelection (Some sid) appendOps e)) = console_errors e"
  proof (cases "pendingDeleteRef e = [] \<and> pendingRestoreRef e = []")
    case True
    then have "plan = []" using empty_pending_plan[of e sid "sessionVersionRef e"] by (simp add: plan_def)
    then show ?thesis using True by (simp add: applySelection_def)
  next
    case False
    then show ?thesis
      using eq
      by (simp add: applySelection_nonempty[OF False] applySelection_try_def loop Let_def
               compact_keeps_log split: option.splits prod.splits)
  qed
  then show "appended (snd (applySelection (Some sid) appendOps e)) =
           appended e @ commit_plan sid (sessionVersionRef e) (pending_ops e)"
    and "sessionVersionRef (snd (applySelection (Some sid) appendOps e)) =
           sessionVersionRef e + length (commit_plan sid (sessionVersionRef e) (pending_ops e))"
    and "console_errors (snd (applySelection (Some sid) appendOps e)) = console_errors e"
    by (simp_all add: plan_def)
qed

lemma commit_plan_fields:
  "map baseVersion (commit_plan sid v (pending_ops e)) =
     [v..<v + length (commit_plan sid v (pending_ops e))]"
  "map indices (commit_plan sid v (pending_ops e)) =
     chunks_at (pendingDeleteRef e) 0 @ chunks_at (pendingRestoreRef e) 0"
  "map action (commit_plan sid v (pending_ops e)) =
     replicate (length (chunks_at (pendingDeleteRef e) 0)) ''delete'' @
     replicate (length (chunks_at (pendingRestoreRef e) 0)) ''restore''"
  "length (commit_plan sid v (pending_ops e)) =
     length (chunks_at (pendingDeleteRef e) 0) + length (chunks_at (pendingRestoreRef e) 0)"
  by (simp_all add: commit_plan_def pending_plan_pairs number_reqs_fields o_def
        map_replicate_const)

lemma applySelection_calls:
  "appended (snd (applySelection (Some sid) appendOps e)) =
     appended e @
       take (Suc (accepted appendOps (commit_plan sid (sessionVersionRef e) (pending_ops e))))
         (commit_plan sid (sessionVersionRef e) (pending_ops e))"
proof (cases "accepted appendOps (commit_plan sid (sessionVersionRef e) (pending_ops e))
                < length (commit_plan sid (sessionVersionRef e) (pending_ops e))")
  case True
  from applySelection_rejected[OF True] show ?thesis by auto
next
  case False
  then have eq: "accepted appendOps (commit_plan sid (sessionVersionRef e) (pending_ops e))
                = length (commit_plan sid (sessionVersionRef e) (pending_ops e))"
    using accepted_le[of appendOps "commit_plan sid (sessionVersionRef e) (pending_ops e)"] by simp
  show ?thesis using applySelection_accepted(1)[OF eq] by (simp add: eq)
qed

lemma rejected_call:
  assumes calls: "appended (snd (applySelection (Some sid) appendOps e)) = appended e @ cs"
      and r: "r \<in> set cs" and rej: "appendOps r = Some err"
  shows "accepted appendOps (commit_plan sid (sessionVersionRef e) (pending_ops e))
           < length (commit_plan sid (sessionVersionRef e) (pending_ops e)) \<and>
         commit_plan sid (sessionVersionRef e) (pending_ops e)
           ! accepted appendOps (commit_plan sid (sessionVersionRef e) (pending_ops e)) = r \<and>
         cs = take (accepted appendOps (commit_plan sid (sessionVersionRef e) (pending_ops e)))
                (commit_plan sid (sessionVersionRef e) (pending_ops e)) @ [r]"
proof -
  define plan where "plan = commit_plan sid (sessionVersionRef e) (pending_ops e)"
  define a where "a = accepted appendOps plan"
  have cs: "cs = take (Suc a) plan"
    using calls applySelection_calls[of sid appendOps e] by (simp add: plan_def a_def)
  have acc: "\<And>q. q \<in> set (take a plan) \<Longrightarrow> appendOps q = None"
    unfolding a_def by (rule accepted_before)
  have lt: "a < length plan"
  proof (rule ccontr)
    assume "\<not> a < length plan"
    then have "take (Suc a) plan = take a plan" by simp
    then have "r \<in> set (take a plan)" using r cs by simp
    then show False using acc rej by simp
  qed
  then have split: "cs = take a plan @ [plan ! a]"
    by (simp add: cs take_Suc_conv_app_nth)
  then have "r \<in> set (take a plan) \<or> r = plan ! a" using r by auto
  then have "r = plan ! a" using acc rej by auto
  then show ?thesis using lt split unfolding plan_def a_def by simp
qed

lemma chunks_small:
  "chunks_at [5, 7] 0 = [[5, 7]]" "chunks_at [2] 0 = [[2]]"
  by (simp_all add: chunks_at.simps MAX_INDICES_PER_OP_def)

lemma pending_plan:
  "commit_plan ''s1'' 3 (pending_ops pending_editor) =
     [\<lparr>sessionId = ''s1'', baseVersion = 3, action = ''delete'', indices = [5, 7]\<rparr>,
      \<lparr>sessionId = ''s1'', baseVersion = 4, action = ''restore'', indices = [2]\<rparr>]"
  by (simp add: commit_plan_def pending_ops_def pending_editor_def fresh_editor_def chunks_small)

lemma pending_rejected:
  "applySelection (Some ''s1'') reject_all pending_editor =
     (None, pending_editor\<lparr>
        appended := [\<lparr>sessionId = ''s1'', baseVersion = 3, action = ''delete'', indices = [5, 7]\<rparr>],
        console_errors := [AppendError ''version conflict'']\<rparr>)"
proof -
  have v: "sessionVersionRef pending_editor = 3" "appended pending_editor = []"
          "console_errors pending_editor = []"
    by (simp_all add: pending_editor_def fresh_editor_def)
  have a: "accepted reject_all
             [\<lparr>sessionId = ''s1'', baseVersion = 3, action = ''delete'', indices = [5, 7]\<rparr>,
              \<lparr>sessionId = ''s1'', baseVersion = 4, action = ''restore'', indices = [2]\<rparr>] = 0"
    by (simp add: accepted_def reject_all_def)
  from applySelection_rejected[of reject_all "''s1''" pending_editor]
  have "applySelection (Some ''s1'') reject_all pending_editor =
          (None, pending_editor\<lparr>
             appended := [] @ take (Suc 0)
               [\<lparr>sessionId = ''s1'', baseVersion = 3, action = ''delete'', indices = [5, 7]\<rparr>,
                \<lparr>sessionId = ''s1'', baseVersion = 4, action = ''restore'', indices = [2]\<rparr>],
             sessionVersionRef := 3 + 0,
             console_errors := [] @ [AppendError ''version conflict'']\<rparr>)"
    by (simp add: v pending_plan a reject_all_def)
  then show ?thesis
    by (simp add: pending_editor_def fresh_editor_def)
qed

text \<open>
  Claim C2. The requests a commit hands to \<^verbatim>\<open>appendOps\<close>, in order, carry the base
  versions \<open>v, v + 1, \<dots>\<close> from the local session version \<open>v\<close> on, one more after each
  accepted chunk, and at most 20000 indices each. When every chunk that was submitted is
  accepted there are \<open>\<lceil>L\<^sub>d / 20000\<rceil> + \<lceil>L\<^sub>r / 20000\<rceil>\<close> of them, for \<open>L\<^sub>d\<close> indices pending for delete
  and \<open>L\<^sub>r\<close> for restore: first the delete chunks, which together are the delete
  list, then the restore chunks, which together are the restore list; and the local
  version has advanced by the number of chunks.
\<close>

theorem applySelection_chunking:
  "\<exists>cs. appended (snd (applySelection (Some sid) appendOps e)) = appended e @ cs \<and>
        map baseVersion cs = [sessionVersionRef e..<sessionVersionRef e + length cs] \<and>
        (\<forall>r \<in> set cs. length (indices r) \<le> 20000) \<and>
        ((\<forall>r \<in> set cs. appendOps r = None) \<longrightarrow>
           length cs = (length (pendingDeleteRef e) + 19999) div 20000
                     + (length (pendingRestoreRef e) + 19999) div 20000 \<and>
           map action cs =
             replicate ((length (pendingDeleteRef e) + 19999) div 20000) ''delete'' @
             replicate ((length (pendingRestoreRef e) + 19999) div 20000) ''restore'' \<and>
           concat (map indices (take ((length (pendingDeleteRef e) + 19999) div 20000) cs))
             = pendingDeleteRef e \<and>
           concat (map indices (drop ((length (pendingDeleteRef e) + 19999) div 20000) cs))
             = pendingRestoreRef e \<and>
           sessionVersionRef (snd (applySelection (Some sid) appendOps e))
             = sessionVersionRef e + length cs)"
proof -
  define v where "v = sessionVersionRef e"
  define plan where "plan = commit_plan sid v (pending_ops e)"
  define a where "a = accepted appendOps plan"
  define cs where "cs = take (Suc a) plan"
  define nd where "nd = (length (pendingDeleteRef e) + 19999) div 20000"
  define nr where "nr = (length (pendingRestoreRef e) + 19999) div 20000"
  have ld: "length (chunks_at (pendingDeleteRef e) 0) = nd"
    and lr: "length (chunks_at (pendingRestoreRef e) 0) = nr"
    by (simp_all add: length_chunks_at nd_def nr_def)
  have calls: "appended (snd (applySelection (Some sid) appendOps e)) = appended e @ cs"
    unfolding cs_def a_def plan_def v_def by (rule applySelection_calls)
  have "map baseVersion cs = take (Suc a) (map baseVersion plan)"
    by (simp add: cs_def take_map)
  also have "\<dots> = take (Suc a) [v..<v + length plan]"
    by (simp add: plan_def commit_plan_fields(1))
  also have "\<dots> = [v..<v + length cs]"
    by (simp add: cs_def min_def)
  finally have versions: "map baseVersion cs = [v..<v + length cs]" .
  have bounded: "\<forall>r \<in> set cs. length (indices r) \<le> 20000"
  proof
    fix r assume "r \<in> set cs"
    then have "r \<in> set plan" unfolding cs_def by (rule in_set_takeD)
    then have "indices r \<in> set (map indices plan)" by simp
    then have "indices r \<in> set (chunks_at (pendingDeleteRef e) 0) \<or>
               indices r \<in> set (chunks_at (pendingRestoreRef e) 0)"
      by (simp add: plan_def commit_plan_fields(2))
    then show "length (indices r) \<le> 20000" using chunks_at_bounded by blast
  qed
  have all: "length cs = nd + nr \<and>
             map action cs = replicate nd ''delete'' @ replicate nr ''restore'' \<and>
             concat (map indices (take nd cs)) = pendingDeleteRef e \<and>
             concat (map indices (drop nd cs)) = pendingRestoreRef e \<and>
             sessionVersionRef (snd (applySelection (Some sid) appendOps e)) = v + length cs"
    if acc: "\<forall>r \<in> set cs. appendOps r = None"
  proof -
    have eq: "a = length plan"
    proof (rule ccontr)
      assume "a \<noteq> length plan"
      then have lt: "a < length plan" using accepted_le[of appendOps plan] by (simp add: a_def)
      then have "cs ! a = plan ! a" "a < length cs" by (simp_all add: cs_def)
      then have "plan ! a \<in> set cs" by (metis nth_mem)
      then have "appendOps (plan ! a) = None" using acc by blast
      moreover have "\<exists>err. appendOps (plan ! a) = Some err"
        using accepted_rejects[of appendOps plan] lt by (simp add: a_def)
      ultimately show False by simp
    qed
    then have cp: "cs = plan" by (simp add: cs_def)
    have len: "length plan = nd + nr"
      by (simp add: plan_def commit_plan_fields(4) ld lr)
    have act: "map action plan = replicate nd ''delete'' @ replicate nr ''restore''"
      by (simp add: plan_def commit_plan_fields(3) ld lr)
    have ix: "map indices plan = chunks_at (pendingDeleteRef e) 0 @ chunks_at (pendingRestoreRef e) 0"
      by (simp add: plan_def commit_plan_fields(2))
    have "map indices (take nd plan) = take nd (map indices plan)" by (simp add: take_map)
    also have "\<dots> = chunks_at (pendingDeleteRef e) 0" by (simp add: ix ld)
    finally have d: "concat (map indices (take nd plan)) = pendingDeleteRef e"
      by (simp add: concat_chunks_at)
    have "map indices (drop nd plan) = drop nd (map indices plan)" by (simp add: drop_map)
    also have "\<dots> = chunks_at (pendingRestoreRef e) 0" by (simp add: ix ld)
    finally have r: "concat (map indices (drop nd plan)) = pendingRestoreRef e"
      by (simp add: concat_chunks_at)
    have sv: "sessionVersionRef (snd (applySelection (Some sid) appendOps e)) = v + length plan"
      using applySelection_accepted(2)[of appendOps sid e] eq
      by (simp add: a_def plan_def v_def)
    show ?thesis using cp len act d r sv by simp
  qed
  show ?thesis
    using calls versions bounded all unfolding v_def nd_def nr_def by blast
qed

theorem applySelection_chunking_witness:
  "(\<forall>r. accept_all r = None) \<and>
   appended (snd (applySelection (Some ''s1'') accept_all pending_editor)) =
     [\<lparr>sessionId = ''s1'', baseVersion = 3, action = ''delete'', indices = [5, 7]\<rparr>,
      \<lparr>sessionId = ''s1'', baseVersion = 4, action = ''restore'', indices = [2]\<rparr>] \<and>
   sessionVersionRef (snd (applySelection (Some ''s1'') accept_all pending_editor)) = 5"
proof -
  have acc: "\<forall>r. accept_all r = None" by (simp add: accept_all_def)
  have p: "pendingDeleteRef pending_editor = [5, 7]" "pendingRestoreRef pending_editor = [2]"
          "sessionVersionRef pending_editor = 3" "appended pending_editor = []"
    by (simp_all add: pending_editor_def fresh_editor_def)
  from applySelection_chunking[of "''s1''" accept_all pending_editor]
  obtain cs where cs:
    "appended (snd (applySelection (Some ''s1'') accept_all pending_editor)) = appended pending_editor @ cs"
    "length cs = (length (pendingDeleteRef pending_editor) + 19999) div 20000
               + (length (pendingRestoreRef pending_editor) + 19999) div 20000"
    "sessionVersionRef (snd (applySelection (Some ''s1'') accept_all pending_editor))
       = sessionVersionRef pending_editor + length cs"
    using acc by blast
  have sv: "sessionVersionRef (snd (applySelection (Some ''s1'') accept_all pending_editor)) = 5"
    using cs(2,3) by (simp add: p)
  have a: "accepted accept_all
             [\<lparr>sessionId = ''s1'', baseVersion = 3, action = ''delete'', indices = [5, 7]\<rparr>,
              \<lparr>sessionId = ''s1'', baseVersion = 4, action = ''restore'', indices = [2]\<rparr>] = 2"
    by (simp add: accepted_def accept_all_def)
  have "appended (snd (applySelection (Some ''s1'') accept_all pending_editor)) =
     [\<lparr>sessionId = ''s1'', baseVersion = 3, action = ''delete'', indices = [5, 7]\<rparr>,
      \<lparr>sessionId = ''s1'', baseVersion = 4, action = ''restore'', indices = [2]\<rparr>]"
    using applySelection_calls[of "''s1''" accept_all pending_editor]
    by (simp add: p a pending_plan)
  then show ?thesis using acc sv by simp
qed

text \<open>
  Claim C8. When a chunk that the commit submitted was rejected, it is the last request
  of the commit (every earlier one was accepted, none follows), and the commit leaves
  the pending sets, the store, the set of deleted indices, the draw range and the
  selection counters as they were; the local version has advanced by the accepted
  chunks only. In the witness the first of two planned chunks is rejected.
\<close>

theorem applySelection_failure_stops:
  assumes "appended (snd (applySelection (Some sid) appendOps e)) = appended e @ cs"
      and "r \<in> set cs" and "appendOps r = Some err"
  shows "last cs = r \<and> (\<forall>q \<in> set (butlast cs). appendOps q = None) \<and>
         pendingDeleteRef (snd (applySelection (Some sid) appendOps e)) = pendingDeleteRef e \<and>
         pendingRestoreRef (snd (applySelection (Some sid) appendOps e)) = pendingRestoreRef e \<and>
         buffersRef (snd (applySelection (Some sid) appendOps e)) = buffersRef e \<and>
         deletedSetRef (snd (applySelection (Some sid) appendOps e)) = deletedSetRef e \<and>
         geometryRef (snd (applySelection (Some sid) appendOps e)) = geometryRef e \<and>
         selectedForDelete (snd (applySelection (Some sid) appendOps e)) = selectedForDelete e \<and>
         selectedForRestore (snd (applySelection (Some sid) appendOps e)) = selectedForRestore e \<and>
         Suc (sessionVersionRef (snd (applySelection (Some sid) appendOps e)))
           = sessionVersionRef e + length cs"
proof -
  define plan where "plan = commit_plan sid (sessionVersionRef e) (pending_ops e)"
  define a where "a = accepted appendOps plan"
  from rejected_call[OF assms]
  have lt: "a < length plan" and cs: "cs = take a plan @ [r]"
    by (simp_all add: plan_def a_def)
  have before: "\<forall>q \<in> set (butlast cs). appendOps q = None"
    using accepted_before[of _ appendOps plan] by (simp add: cs a_def)
  have len: "length cs = Suc a" using lt by (simp add: cs)
  from applySelection_rejected[of appendOps sid e] lt
  obtain err' where
    "applySelection (Some sid) appendOps e =
       (None, e\<lparr>appended := appended e @ take (Suc a) plan,
                 sessionVersionRef := sessionVersionRef e + a,
                 console_errors := console_errors e @ [err']\<rparr>)"
    unfolding plan_def a_def by blast
  then show ?thesis using before len by (simp add: cs)
qed

theorem applySelection_failure_stops_witness:
  "appended (snd (applySelection (Some ''s1'') reject_all pending_editor)) =
     appended pending_editor @
       [\<lparr>sessionId = ''s1'', baseVersion = 3, action = ''delete'', indices = [5, 7]\<rparr>] \<and>
   length (commit_plan ''s1'' 3 (pending_ops pending_editor)) = 2 \<and>
   pendingDeleteRef (snd (applySelection (Some ''s1'') reject_all pending_editor)) = [5, 7] \<and>
   pendingRestoreRef (snd (applySelection (Some ''s1'') reject_all pending_editor)) = [2] \<and>
   buffersRef (snd (applySelection (Some ''s1'') reject_all pending_editor)) =
     buffersRef pending_editor \<and>
   sessionVersionRef (snd (applySelection (Some ''s1'') reject_all pending_editor)) = 3"
proof -
  let ?r = "\<lparr>sessionId = ''s1'', baseVersion = 3, action = ''delete'', indices = [5, 7]\<rparr>"
  have ap: "appended pending_editor = []"
    by (simp add: pending_editor_def fresh_editor_def)
  have c: "appended (snd (applySelection (Some ''s1'') reject_all pending_editor)) =
             appended pending_editor @ [?r]"
    unfolding pending_rejected ap by simp
  have m: "?r \<in> set [?r]" by simp
  have j: "reject_all ?r = Some (AppendError ''version conflict'')" by (simp add: reject_all_def)
  have p: "pendingDeleteRef pending_editor = [5, 7]" "pendingRestoreRef pending_editor = [2]"
          "sessionVersionRef pending_editor = 3"
    by (simp_all add: pending_editor_def fresh_editor_def)
  from applySelection_failure_stops[OF c m j] c p show ?thesis
    by (simp add: pending_plan)
qed

text \<open>
  Claim C7, as the code has it. The \<^verbatim>\<open>catch\<close> block of \<^verbatim>\<open>applySelection\<close> takes the
  failure of a chunk, hands it to \<^verbatim>\<open>console.error\<close> and returns: no exception leaves
  \<^verbatim>\<open>applySelection\<close>, and the error is logged once. The counterexample to the claim as
  stated is a commit whose first chunk is rejected and which returns normally.
\<close>

theorem applySelection_failure_logged:
  assumes "appended (snd (applySelection (Some sid) appendOps e)) = appended e @ cs"
      and "r \<in> set cs" and "appendOps r = Some err"
  shows "fst (applySelection (Some sid) appendOps e) = None \<and>
         console_errors (snd (applySelection (Some sid) appendOps e)) = console_errors e @ [err]"
proof -
  define plan where "plan = commit_plan sid (sessionVersionRef e) (pending_ops e)"
  define a where "a = accepted appendOps plan"
  from rejected_call[OF assms]
  have lt: "a < length plan" and at: "plan ! a = r"
    by (simp_all add: plan_def a_def)
  from applySelection_rejected[of appendOps sid e] lt
  obtain err' where e': "appendOps (plan ! a) = Some err'"
    "applySelection (Some sid) appendOps e =
       (None, e\<lparr>appended := appended e @ take (Suc a) plan,
                 sessionVersionRef := sessionVersionRef e + a,
                 console_errors := console_errors e @ [err']\<rparr>)"
    unfolding plan_def a_def by blast
  have "err' = err" using e'(1) at assms(3) by simp
  then show ?thesis using e'(2) by simp
qed

theorem applySelection_failure_logged_witness:
  "appended (snd (applySelection (Some ''s1'') reject_all pending_editor)) =
     appended pending_editor @
       [\<lparr>sessionId = ''s1'', baseVersion = 3, action = ''delete'', indices = [5, 7]\<rparr>] \<and>
   fst (applySelection (Some ''s1'') reject_all pending_editor) = None \<and>
   console_errors (snd (applySelection (Some ''s1'') reject_all pending_editor)) =
     console_errors pending_editor @ [AppendError ''version conflict'']"
proof -
  let ?r = "\<lparr>sessionId = ''s1'', baseVersion = 3, action = ''delete'', indices = [5, 7]\<rparr>"
  have ap: "appended pending_editor = []"
    by (simp add: pending_editor_def fresh_editor_def)
  have c: "appended (snd (applySelection (Some ''s1'') reject_all pending_editor)) =
             appended pending_editor @ [?r]"
    unfolding pending_rejected ap by simp
  have m: "?r \<in> set [?r]" by simp
  have j: "reject_all ?r = Some (AppendError ''version conflict'')" by (simp add: reject_all_def)
  from applySelection_failure_logged[OF c m j] c show ?thesis by simp
qed

theorem applySelection_propagation_counterexample:
  "appended (snd (applySelection (Some ''s1'') reject_all pending_editor)) =
     [\<lparr>sessionId = ''s1'', baseVersion = 3, action = ''delete'', indices = [5, 7]\<rparr>] \<and>
   reject_all \<lparr>sessionId = ''s1'', baseVersion = 3, action = ''delete'', indices = [5, 7]\<rparr> =
     Some (AppendError ''version conflict'') \<and>
   fst (applySelection (Some ''s1'') reject_all pending_editor) = None"
  by (simp add: pending_rejected reject_all_def)

section \<open>A commit that succeeds, run\<close>

text \<open>
  The same pending selection with every chunk accepted: both requests are sent, points 5
  and 7 become deleted and point 2 alive, the pending sets and counters are cleared, and
  compaction leaves the six alive points.
\<close>

lemma loop_accept:
  "ops_loop accept_all ''s1'' (pending_ops pending_editor) 3 pending_editor =
     (None, 5, pending_editor\<lparr>appended :=
        [\<lparr>sessionId = ''s1'', baseVersion = 3, action = ''delete'', indices = [5, 7]\<rparr>,
         \<lparr>sessionId = ''s1'', baseVersion = 4, action = ''restore'', indices = [2]\<rparr>],
        sessionVersionRef := 5\<rparr>)"
  unfolding ops_loop_run_plan pending_plan
  by (simp add: accept_all_def pending_editor_def fresh_editor_def)

lemma local_effects:
  "fold restore_one [2] (fold delete_one [5, 7]
      (fresh_buffers\<lparr>status := [0, 0, 1, 0, 0, 0, 0, 0], selections := [0, 0, 2, 0, 0, 1, 0, 1]\<rparr>, [])) =
   (fresh_buffers\<lparr>status := [0, 0, 0, 0, 0, 1, 0, 1],
      colors := [Num 0, Num 0, Num 0, Num 0, Num 0, Num 0, Num 0.35, Num 0.35, Num 0.35,
                 Num 0, Num 0, Num 0, Num 0, Num 0, Num 0, Num 0.2, Num 0.2, Num 0.2,
                 Num 0, Num 0, Num 0, Num 0.2, Num 0.2, Num 0.2]\<rparr>, [5, 7])"
  by (simp add: delete_one_def restore_one_def set_rgb_def base_gray_def ta_set_def
      fresh_buffers_def set_add_def set_delete_def Let_def list_update_Cons_numeral)

lemma committed_keep:
  "filter (\<lambda>i. status committed_buffers ! i = 0) [0..<length (status committed_buffers)] =
     [0, 1, 2, 3, 4, 6]"
  by (simp add: committed_buffers_def)

lemma committed_compact:
  assumes "buffersRef e = Some committed_buffers" and "geometryRef e = Some g"
  shows "compactBuffersAfterApply e =
     (2, e\<lparr>buffersRef := Some
           \<lparr>positions = [0,0,0, 0,0,0, 0,0,0, 0,0,0, 0,0,0, 0,0,0],
            colors = [Num 0, Num 0, Num 0, Num 0, Num 0, Num 0, Num 0.35, Num 0.35, Num 0.35,
                      Num 0, Num 0, Num 0, Num 0, Num 0, Num 0, Num 0, Num 0, Num 0],
            status = [0, 0, 0, 0, 0, 0], selections = [0, 0, 0, 0, 0, 0], intensities = None,
            lodIndex = Some [0, 1, 2, 3, 4, 5]\<rparr>,
          geometryRef := Some (g\<lparr>drawRange_count := 6\<rparr>)\<rparr>)"
proof -
  have n: "length (positions committed_buffers) div 3 = length (status committed_buffers)"
    by (simp add: committed_buffers_def fresh_buffers_def)
  have i: "intensities committed_buffers = None" "lodIndex committed_buffers \<noteq> None"
          "length (status committed_buffers) = 8"
    by (simp_all add: committed_buffers_def fresh_buffers_def)
  show ?thesis
    unfolding compact_unfold[OF assms n] committed_keep Let_def
    by (simp add: i committed_buffers_def fresh_buffers_def copy_point_def pos_read_def
        of_undef_def ta_get_def ta_set_def Let_def list_update_Cons_numeral numeral_eq_Suc)
qed

lemma pending_accepted:
  "applySelection (Some ''s1'') accept_all pending_editor =
     (None,
      \<lparr>buffersRef = Some
           \<lparr>positions = [0,0,0, 0,0,0, 0,0,0, 0,0,0, 0,0,0, 0,0,0],
            colors = [Num 0, Num 0, Num 0, Num 0, Num 0, Num 0, Num 0.35, Num 0.35, Num 0.35,
                      Num 0, Num 0, Num 0, Num 0, Num 0, Num 0, Num 0, Num 0, Num 0],
            status = [0, 0, 0, 0, 0, 0], selections = [0, 0, 0, 0, 0, 0], intensities = None,
            lodIndex = Some [0, 1, 2, 3, 4, 5]\<rparr>,
       geometryRef = Some \<lparr>drawRange_count = 6\<rparr>,
       pendingDeleteRef = [], pendingRestoreRef = [], deletedSetRef = [5, 7],
       sessionVersionRef = 5, selectedForDelete = 0, selectedForRestore = 0,
       appended =
         [\<lparr>sessionId = ''s1'', baseVersion = 3, action = ''delete'', indices = [5, 7]\<rparr>,
          \<lparr>sessionId = ''s1'', baseVersion = 4, action = ''restore'', indices = [2]\<rparr>],
       console_errors = []\<rparr>)"
proof -
  have ne: "\<not> (pendingDeleteRef pending_editor = [] \<and> pendingRestoreRef pending_editor = [])"
    by (simp add: pending_editor_def)
  have f: "sessionVersionRef pending_editor = 3"
          "buffersRef pending_editor =
             Some (fresh_buffers\<lparr>status := [0, 0, 1, 0, 0, 0, 0, 0],
                                   selections := [0, 0, 2, 0, 0, 1, 0, 1]\<rparr>)"
          "pendingDeleteRef pending_editor = [5, 7]" "pendingRestoreRef pending_editor = [2]"
          "deletedSetRef pending_editor = []"
    by (simp_all add: pending_editor_def fresh_editor_def)
  have le: "fold restore_one [2] (fold delete_one [5, 7]
      (fresh_buffers\<lparr>status := [0, 0, 1, 0, 0, 0, 0, 0], selections := [0, 0, 2, 0, 0, 1, 0, 1]\<rparr>, [])) =
      (committed_buffers, [5, 7])"
    unfolding committed_buffers_def by (rule local_effects)
  let ?e3 = "pending_editor\<lparr>appended :=
        [\<lparr>sessionId = ''s1'', baseVersion = 3, action = ''delete'', indices = [5, 7]\<rparr>,
         \<lparr>sessionId = ''s1'', baseVersion = 4, action = ''restore'', indices = [2]\<rparr>],
        sessionVersionRef := 5, buffersRef := Some committed_buffers, deletedSetRef := [5, 7],
        pendingDeleteRef := [], pendingRestoreRef := [],
        selectedForDelete := 0, selectedForRestore := 0\<rparr>"
  have t: "applySelection_try accept_all ''s1'' pending_editor =
             (None, snd (compactBuffersAfterApply ?e3))"
    by (simp add: applySelection_try_def f loop_accept le[simplified] Let_def)
  have g: "buffersRef ?e3 = Some committed_buffers"
          "geometryRef ?e3 = Some \<lparr>drawRange_count = 8\<rparr>"
    by (simp_all add: pending_editor_def fresh_editor_def)
  show ?thesis
    unfolding applySelection_nonempty[OF ne] t committed_compact[OF g]
    by (simp add: pending_editor_def fresh_editor_def)
qed

end
